theory Spec2Isabelle
  imports Main "HOL-Library.Multiset" "HOL-Library.List_Lexorder"
begin

section \<open>The idea tracker of ideas.py\<close>

text \<open>
  The program keeps a table of ideas in an SQLite file and drives it from a curses event
  loop. The embedding follows \<^verbatim>\<open>src/ideas.py\<close> function by function.

  Conventions of the embedding:
  \<^item> Python integers are \<^typ>\<open>int\<close>, unbounded; the 64-bit range of an SQLite INTEGER is
    not modelled. A Python \<^verbatim>\<open>str\<close> is the list of its code points (\<^verbatim>\<open>chr(ch)\<close> of a key
    code can lie beyond one byte), compared as SQLite's BINARY collation and Python do,
    lexicographically by code point.
  \<^item> The table \<^verbatim>\<open>ideas\<close> is the list of its rows in rowid order. \<^verbatim>\<open>ORDER BY\<close> is a sort by
    the named column that keeps rows with equal keys in rowid order. That ids are unique
    (the primary key) and that the archived column holds 0 or 1 are not built into the
    type of rows; the statements that need them assume them.
  \<^item> Calls of curses are taken to succeed, except \<^verbatim>\<open>curses.newwin\<close>, which fails when the
    dialog does not fit the terminal. What the terminal draws is not part of the state
    and is left out, except for the list reads the drawing makes; what the terminal
    delivers (key codes, the window height and width, the text of an edit box, today's
    date) is an input of the step.
  \<^item> A Python exception is a value of \<open>py_error\<close>; a read that waits for a key that never
    comes is the value \<open>Blocked\<close>.
\<close>

subsection \<open>Python values\<close>

type_synonym pystr = "nat list"

definition str_of :: "string \<Rightarrow> pystr" where
  "str_of s = map of_char s"

datatype py_error = IndexError | TypeError | ValueError | UnicodeDecodeError | CursesError

datatype 'a io = Blocked | Raises py_error | Returns 'a

text \<open>\<^verbatim>\<open>xs[i]\<close>: a negative index counts from the end, an index out of range raises.\<close>

definition py_get :: "'a list \<Rightarrow> int \<Rightarrow> py_error + 'a" where
  "py_get xs i =
     (let n = int (length xs); j = (if i < 0 then i + n else i)
      in if j < 0 \<or> n \<le> j then Inl IndexError else Inr (xs ! nat j))"

text \<open>\<^verbatim>\<open>xs[i] = v\<close>, with the same index rule.\<close>

definition py_set :: "'a list \<Rightarrow> int \<Rightarrow> 'a \<Rightarrow> py_error + 'a list" where
  "py_set xs i v =
     (let n = int (length xs); j = (if i < 0 then i + n else i)
      in if j < 0 \<or> n \<le> j then Inl IndexError else Inr (xs[nat j := v]))"

text \<open>
  \<^verbatim>\<open>xs[i], xs[j] = xs[j], xs[i]\<close>: the right-hand side is read first, left to right, then
  the two targets are assigned left to right.
\<close>

definition py_swap :: "'a list \<Rightarrow> int \<Rightarrow> int \<Rightarrow> py_error + 'a list" where
  "py_swap xs i j =
     (case py_get xs j of
        Inl err \<Rightarrow> Inl err
      | Inr a \<Rightarrow>
          (case py_get xs i of
             Inl err \<Rightarrow> Inl err
           | Inr b \<Rightarrow>
               (case py_set xs i a of
                  Inl err \<Rightarrow> Inl err
                | Inr ys \<Rightarrow> py_set ys j b)))"

text \<open>
  \<^verbatim>\<open>str.isspace\<close> on one code point and \<^verbatim>\<open>str.strip()\<close>: Python's own, not in the
  repository; the code points are the ones CPython treats as whitespace.
\<close>

definition py_isspace :: "nat \<Rightarrow> bool" where
  "py_isspace c =
     ((9 \<le> c \<and> c \<le> 13) \<or> (28 \<le> c \<and> c \<le> 32) \<or> c = 133 \<or> c = 160 \<or> c = 5760
      \<or> (8192 \<le> c \<and> c \<le> 8202) \<or> c = 8232 \<or> c = 8233 \<or> c = 8239 \<or> c = 8287
      \<or> c = 12288)"

definition strip :: "pystr \<Rightarrow> pystr" where
  "strip s = rev (dropWhile py_isspace (rev (dropWhile py_isspace s)))"

subsection \<open>The table\<close>

text \<open>A row of \<^verbatim>\<open>ideas\<close>, the tuple (id, title, pos, created_date, notes, archived).\<close>

record idea =
  idea_id :: int
  title :: pystr
  pos :: int
  created_date :: pystr
  notes_text :: pystr
  archived :: int

text \<open>
  The connection: the rows in rowid order, and the counter SQLite keeps for an
  AUTOINCREMENT key (the largest id ever given out).
\<close>

record db =
  rows :: "idea list"
  seq :: int

text \<open>\<^verbatim>\<open>SELECT MAX(pos) FROM ideas\<close>: NULL on an empty table.\<close>

fun select_max_pos :: "idea list \<Rightarrow> int option" where
  "select_max_pos [] = None"
| "select_max_pos (r # rs) =
     (case select_max_pos rs of None \<Rightarrow> Some (pos r) | Some m \<Rightarrow> Some (max (pos r) m))"

text \<open>The id an AUTOINCREMENT key gives the next row: above every id present or ever used.\<close>

definition next_id :: "db \<Rightarrow> int" where
  "next_id c = fold max (map idea_id (rows c)) (seq c) + 1"

definition add_idea :: "db \<Rightarrow> pystr \<Rightarrow> pystr \<Rightarrow> pystr \<Rightarrow> db" where
  "add_idea c t n today =
     (let max_pos = select_max_pos (rows c);
          new_pos = (case max_pos of None \<Rightarrow> 0 | Some m \<Rightarrow> m + 1);
          created = today;
          new_id = next_id c
      in c\<lparr>rows := rows c @
               [\<lparr>idea_id = new_id, title = t, pos = new_pos, created_date = created,
                 notes_text = n, archived = 0\<rparr>],
           seq := new_id\<rparr>)"

definition delete_idea :: "db \<Rightarrow> int \<Rightarrow> db" where
  "delete_idea c i = c\<lparr>rows := filter (\<lambda>r. idea_id r \<noteq> i) (rows c)\<rparr>"

definition get_ideas :: "db \<Rightarrow> string \<Rightarrow> idea list" where
  "get_ideas c order_by =
     (if order_by = ''pos'' then sort_key pos (rows c)
      else if order_by = ''created_date'' then sort_key created_date (rows c)
      else sort_key pos (rows c))"

text \<open>\<^verbatim>\<open>UPDATE ideas SET pos = ? WHERE id = ?\<close>\<close>

definition set_pos :: "idea list \<Rightarrow> int \<Rightarrow> int \<Rightarrow> idea list" where
  "set_pos rs new_pos i = map (\<lambda>r. if idea_id r = i then r\<lparr>pos := new_pos\<rparr> else r) rs"

text \<open>The loop of \<^verbatim>\<open>update_idea_order\<close> over \<^verbatim>\<open>enumerate(ideas_order)\<close>, from index \<open>k\<close>.\<close>

fun update_idea_order_from :: "idea list \<Rightarrow> nat \<Rightarrow> idea list \<Rightarrow> idea list" where
  "update_idea_order_from rs k [] = rs"
| "update_idea_order_from rs k (x # ideas_order) =
     update_idea_order_from (set_pos rs (int k) (idea_id x)) (Suc k) ideas_order"

definition update_idea_order :: "db \<Rightarrow> idea list \<Rightarrow> db" where
  "update_idea_order c ideas_order = c\<lparr>rows := update_idea_order_from (rows c) 0 ideas_order\<rparr>"

definition toggle_idea_archived :: "db \<Rightarrow> int \<Rightarrow> int \<Rightarrow> db" where
  "toggle_idea_archived c i current_archived =
     (let new_archived = (if current_archived \<noteq> 0 then 0 else 1)
      in c\<lparr>rows := map (\<lambda>r. if idea_id r = i then r\<lparr>archived := new_archived\<rparr> else r)
                      (rows c)\<rparr>)"

definition update_idea_info :: "db \<Rightarrow> int \<Rightarrow> pystr \<Rightarrow> pystr \<Rightarrow> db" where
  "update_idea_info c i t n =
     c\<lparr>rows := map (\<lambda>r. if idea_id r = i then r\<lparr>title := t, notes_text := n\<rparr> else r) (rows c)\<rparr>"

subsection \<open>Key codes\<close>

text \<open>\<^verbatim>\<open>ord(c)\<close> of a one-character literal, and the key codes of curses (its own constants).\<close>

definition ord :: "char \<Rightarrow> int" where
  "ord c = of_char c"

abbreviation KEY_DOWN :: int where "KEY_DOWN \<equiv> 258"
abbreviation KEY_UP :: int where "KEY_UP \<equiv> 259"
abbreviation KEY_BACKSPACE :: int where "KEY_BACKSPACE \<equiv> 263"
abbreviation KEY_DC :: int where "KEY_DC \<equiv> 330"
abbreviation KEY_ENTER :: int where "KEY_ENTER \<equiv> 343"
abbreviation KEY_RESIZE :: int where "KEY_RESIZE \<equiv> 410"

subsection \<open>The dialog\<close>

text \<open>
  The loop of \<^verbatim>\<open>get_line_with_esc\<close> over the keys \<^verbatim>\<open>win.getch\<close> delivers, with the text
  typed so far. \<^verbatim>\<open>Returns None\<close> is the cancellation; \<^verbatim>\<open>chr\<close> raises outside the range of
  code points.
\<close>

fun get_line_loop :: "int list \<Rightarrow> int \<Rightarrow> pystr \<Rightarrow> pystr option io" where
  "get_line_loop [] max_length s = Blocked"
| "get_line_loop (ch # chs) max_length s =
     (if ch = 27 then Returns None
      else if ch = KEY_ENTER \<or> ch = ord CHR 0x0A then Returns (Some s)
      else if ch = KEY_BACKSPACE \<or> ch = 127 \<or> ch = 8 then
        (if length s > 0 then get_line_loop chs max_length (butlast s)
         else get_line_loop chs max_length s)
      else
        (if int (length s) < max_length then
           (if 0 \<le> ch \<and> ch < 0x110000 then get_line_loop chs max_length (s @ [nat ch])
            else Raises ValueError)
         else get_line_loop chs max_length s))"

definition get_line_with_esc :: "int list \<Rightarrow> int \<Rightarrow> pystr option io" where
  "get_line_with_esc keys max_length = get_line_loop keys max_length []"

text \<open>The confirmation prompt: the loop that reads keys until y, Y, n, N or ESC.\<close>

fun confirm_prompt :: "int list \<Rightarrow> bool io" where
  "confirm_prompt [] = Blocked"
| "confirm_prompt (k # ks) =
     (if k = ord CHR ''y'' \<or> k = ord CHR ''Y'' then Returns True
      else if k = ord CHR ''n'' \<or> k = ord CHR ''N'' \<or> k = 27 then Returns False
      else confirm_prompt ks)"

text \<open>
  \<^verbatim>\<open>dialog_template_idea\<close>. Of \<^verbatim>\<open>stdscr\<close> it uses the size \<open>sh\<close>, \<open>sw\<close> that \<^verbatim>\<open>getmaxyx\<close>
  returns. Its other inputs from the terminal: the keys typed at the title (\<open>title_keys\<close>),
  the outcome of \<^verbatim>\<open>Textbox.edit(notes_validator)\<close> (\<open>None\<close> when ESC made the validator raise
  KeyboardInterrupt, otherwise the text gathered from the box), and the keys typed at the
  confirmation prompt.

  The dialog is 18 lines by 70 columns, centred. \<^verbatim>\<open>curses.newwin(dh, dw, dy, dx)\<close> returns
  no window when a corner coordinate is negative, that is in a terminal of fewer than 18
  lines or 70 columns, and Python raises \<^verbatim>\<open>curses.error\<close>, which nothing catches. The title
  is at most \<open>dw - 4\<close> long.
\<close>

definition dialog_template_idea ::
  "int \<Rightarrow> int \<Rightarrow> pystr \<Rightarrow> pystr \<Rightarrow> int list \<Rightarrow> pystr option \<Rightarrow> int list \<Rightarrow>
     (pystr \<times> pystr) option io" where
  "dialog_template_idea sh sw init_title init_notes title_keys notes_edit confirm_keys =
     (let dh = 18; dw = 70; dy = (sh - dh) div 2; dx = (sw - dw) div 2 in
      if dy < 0 \<or> dx < 0 then Raises CursesError
      else
        case get_line_with_esc title_keys (dw - 4) of
          Blocked \<Rightarrow> Blocked
        | Raises err \<Rightarrow> Raises err
        | Returns None \<Rightarrow> Returns None
        | Returns (Some typed) \<Rightarrow>
            (let new_title = (if strip typed = [] then init_title else typed) in
             case notes_edit of
               None \<Rightarrow> Returns None
             | Some text \<Rightarrow>
                 (let new_notes = strip text in
                  case confirm_prompt confirm_keys of
                    Blocked \<Rightarrow> Blocked
                  | Raises err \<Rightarrow> Raises err
                  | Returns True \<Rightarrow> Returns (Some (new_title, new_notes))
                  | Returns False \<Rightarrow> Returns None)))"

definition new_idea_dialog ::
  "int \<Rightarrow> int \<Rightarrow> int list \<Rightarrow> pystr option \<Rightarrow> int list \<Rightarrow> (pystr \<times> pystr) option io" where
  "new_idea_dialog sh sw title_keys notes_edit confirm_keys =
     dialog_template_idea sh sw [] [] title_keys notes_edit confirm_keys"

definition edit_idea_dialog ::
  "int \<Rightarrow> int \<Rightarrow> pystr \<Rightarrow> pystr \<Rightarrow> int list \<Rightarrow> pystr option \<Rightarrow> int list \<Rightarrow>
     (pystr \<times> pystr) option io" where
  "edit_idea_dialog sh sw init_title init_notes title_keys notes_edit confirm_keys =
     dialog_template_idea sh sw init_title init_notes title_keys notes_edit confirm_keys"

subsection \<open>The event loop\<close>

text \<open>The local variables of \<^verbatim>\<open>main\<close> that live across iterations.\<close>

record ui =
  conn :: db
  current_order :: string
  current_selection :: int
  moving_idea_index :: "int option"
  reorder_list :: "idea list option"
  scroll_offset :: int

text \<open>
  What the terminal delivers during one iteration: the window height and width (the
  \<^verbatim>\<open>max_y, max_x\<close> of \<^verbatim>\<open>stdscr.getmaxyx()\<close>), the key, and what
  the prompts opened by that key read: \<open>order_choice\<close> is the text typed at the
  ordering prompt once decoded, stripped and lowered (\<open>None\<close> when the bytes typed do not
  decode); the three dialog inputs are those of
  \<open>dialog_template_idea\<close>; \<open>today\<close> is the date \<^verbatim>\<open>add_idea\<close> formats.
\<close>

record event =
  max_y :: int
  max_x :: int
  key :: int
  order_choice :: "pystr option"
  title_keys :: "int list"
  notes_edit :: "pystr option"
  confirm_keys :: "int list"
  today :: pystr

text \<open>
  How an iteration ends: \<open>Next st flash\<close> goes round the loop again (\<open>flash\<close> tells
  whether \<^verbatim>\<open>curses.flash()\<close> was called), \<open>Break\<close> leaves the loop, \<open>Hang\<close> waits for a key
  that never comes, \<open>Crash\<close> is an uncaught exception.
\<close>

datatype outcome = Next ui bool | Break ui | Hang | Crash py_error

text \<open>Lines 255 to 264: the selection and the scroll offset are clamped before drawing.\<close>

definition clamp_view :: "ui \<Rightarrow> int \<Rightarrow> int \<Rightarrow> ui" where
  "clamp_view st num_ideas visible_ideas =
     (let sel1 = (if current_selection st \<ge> num_ideas then num_ideas - 1
                  else current_selection st);
          sel2 = (if sel1 < 0 then 0 else sel1);
          off = (if sel2 < scroll_offset st then sel2
                 else if sel2 \<ge> scroll_offset st + visible_ideas then sel2 - visible_ideas + 1
                 else scroll_offset st)
      in st\<lparr>current_selection := sel2, scroll_offset := off\<rparr>)"

definition on_key_up :: "ui \<Rightarrow> outcome" where
  "on_key_up st =
     (case moving_idea_index st of
        None \<Rightarrow> Next (st\<lparr>current_selection := max 0 (current_selection st - 1)\<rparr>) False
      | Some m \<Rightarrow>
          if m > 0 then
            (case reorder_list st of
               None \<Rightarrow> Crash TypeError
             | Some l \<Rightarrow>
                 (case py_swap l m (m - 1) of
                    Inl err \<Rightarrow> Crash err
                  | Inr l' \<Rightarrow>
                      Next (st\<lparr>reorder_list := Some l', moving_idea_index := Some (m - 1),
                               current_selection := m - 1\<rparr>) False))
          else Next st False)"

definition on_key_down :: "ui \<Rightarrow> int \<Rightarrow> outcome" where
  "on_key_down st num_ideas =
     (case moving_idea_index st of
        None \<Rightarrow>
          Next (st\<lparr>current_selection := min (num_ideas - 1) (current_selection st + 1)\<rparr>) False
      | Some m \<Rightarrow>
          if m < num_ideas - 1 then
            (case reorder_list st of
               None \<Rightarrow> Crash TypeError
             | Some l \<Rightarrow>
                 (case py_swap l m (m + 1) of
                    Inl err \<Rightarrow> Crash err
                  | Inr l' \<Rightarrow>
                      Next (st\<lparr>reorder_list := Some l', moving_idea_index := Some (m + 1),
                               current_selection := m + 1\<rparr>) False))
          else Next st False)"

definition on_key_o :: "ui \<Rightarrow> event \<Rightarrow> outcome" where
  "on_key_o st e =
     (case order_choice e of
        None \<Rightarrow> Crash UnicodeDecodeError
      | Some choice \<Rightarrow>
          Next (st\<lparr>current_order :=
                      (if choice = str_of ''i'' then ''pos''
                       else if choice = str_of ''d'' then ''created_date''
                       else current_order st),
                   current_selection := 0, scroll_offset := 0\<rparr>) False)"

definition on_key_a :: "ui \<Rightarrow> int \<Rightarrow> event \<Rightarrow> outcome" where
  "on_key_a st visible_ideas e =
     (case new_idea_dialog (max_y e) (max_x e) (title_keys e) (notes_edit e)
             (confirm_keys e) of
        Blocked \<Rightarrow> Hang
      | Raises err \<Rightarrow> Crash err
      | Returns None \<Rightarrow> Next st False
      | Returns (Some (idea_title, idea_notes)) \<Rightarrow>
          (let c = add_idea (conn st) idea_title idea_notes (today e);
               ideas = get_ideas c (current_order st);
               sel = int (length ideas) - 1;
               off = (if sel \<ge> scroll_offset st + visible_ideas then sel - visible_ideas + 1
                      else scroll_offset st)
           in Next (st\<lparr>conn := c, current_selection := sel, scroll_offset := off\<rparr>) False))"

definition on_key_delete :: "ui \<Rightarrow> idea list \<Rightarrow> int \<Rightarrow> outcome" where
  "on_key_delete st ideas num_ideas =
     (if num_ideas > 0 then
        (case py_get ideas (current_selection st) of
           Inl err \<Rightarrow> Crash err
         | Inr x \<Rightarrow>
             (let c = delete_idea (conn st) (idea_id x);
                  ideas' = get_ideas c (current_order st);
                  sel = (if current_selection st \<ge> int (length ideas')
                         then max 0 (int (length ideas') - 1) else current_selection st)
              in Next (st\<lparr>conn := c, current_selection := sel, scroll_offset := 0\<rparr>) False))
      else Next st False)"

definition on_key_d :: "ui \<Rightarrow> idea list \<Rightarrow> int \<Rightarrow> outcome" where
  "on_key_d st ideas num_ideas =
     (if num_ideas > 0 then
        (case py_get ideas (current_selection st) of
           Inl err \<Rightarrow> Crash err
         | Inr x \<Rightarrow>
             Next (st\<lparr>conn := toggle_idea_archived (conn st) (idea_id x) (archived x)\<rparr>) False)
      else Next st False)"

definition on_key_e :: "ui \<Rightarrow> idea list \<Rightarrow> int \<Rightarrow> event \<Rightarrow> outcome" where
  "on_key_e st ideas num_ideas e =
     (if num_ideas > 0 then
        (case py_get ideas (current_selection st) of
           Inl err \<Rightarrow> Crash err
         | Inr x \<Rightarrow>
             (case edit_idea_dialog (max_y e) (max_x e) (title x) (notes_text x)
                     (title_keys e) (notes_edit e) (confirm_keys e) of
                Blocked \<Rightarrow> Hang
              | Raises err \<Rightarrow> Crash err
              | Returns None \<Rightarrow> Next st False
              | Returns (Some (new_title, new_notes)) \<Rightarrow>
                  Next (st\<lparr>conn := update_idea_info (conn st) (idea_id x) new_title new_notes\<rparr>)
                    False))
      else Next st False)"

definition on_key_space :: "ui \<Rightarrow> outcome" where
  "on_key_space st =
     (if current_order st \<noteq> ''pos'' then Next st True
      else
        (case moving_idea_index st of
           None \<Rightarrow>
             Next (st\<lparr>reorder_list := Some (get_ideas (conn st) (current_order st)),
                      moving_idea_index := Some (current_selection st)\<rparr>) False
         | Some m \<Rightarrow>
             (case reorder_list st of
                None \<Rightarrow> Crash TypeError
              | Some l \<Rightarrow>
                  Next (st\<lparr>conn := update_idea_order (conn st) l, current_selection := m,
                           moving_idea_index := None, reorder_list := None\<rparr>) False)))"

text \<open>Lines 317 to 393: the chain of tests on the key, in the order of the source.\<close>

definition handle_key :: "ui \<Rightarrow> idea list \<Rightarrow> int \<Rightarrow> int \<Rightarrow> event \<Rightarrow> outcome" where
  "handle_key st ideas num_ideas visible_ideas e =
     (if key e = ord CHR ''q'' then Break st
      else if key e = KEY_RESIZE then Next st False
      else if key e = KEY_UP then on_key_up st
      else if key e = KEY_DOWN then on_key_down st num_ideas
      else if key e = ord CHR ''o'' \<and> moving_idea_index st = None then on_key_o st e
      else if key e = ord CHR ''a'' \<and> moving_idea_index st = None
        then on_key_a st visible_ideas e
      else if (key e = KEY_DC \<or> key e = KEY_BACKSPACE \<or> key e = 127)
              \<and> moving_idea_index st = None
        then on_key_delete st ideas num_ideas
      else if key e = ord CHR ''d'' \<and> moving_idea_index st = None
        then on_key_d st ideas num_ideas
      else if key e = ord CHR ''e'' \<and> moving_idea_index st = None
        then on_key_e st ideas num_ideas e
      else if key e = ord CHR '' '' then on_key_space st
      else Next st False)"

text \<open>
  Lines 266 to 302, the rows drawn: what is kept of the drawing is the read \<^verbatim>\<open>ideas[idx]\<close>
  for every \<open>idx\<close> of the range, which raises when \<open>idx\<close> is out of range.
\<close>

fun draw_rows :: "idea list \<Rightarrow> int list \<Rightarrow> py_error option" where
  "draw_rows ideas [] = None"
| "draw_rows ideas (idx # rest) =
     (case py_get ideas idx of Inl err \<Rightarrow> Some err | Inr x \<Rightarrow> draw_rows ideas rest)"

text \<open>The list an iteration shows: a fresh scan, or the working list while an idea moves.\<close>

definition shown_ideas :: "ui \<Rightarrow> idea list option" where
  "shown_ideas st =
     (case moving_idea_index st of
        None \<Rightarrow> Some (get_ideas (conn st) (current_order st))
      | Some m \<Rightarrow> reorder_list st)"

text \<open>One iteration of \<^verbatim>\<open>while True\<close>; \<^verbatim>\<open>len(None)\<close> raises TypeError.\<close>

definition main_iter :: "ui \<Rightarrow> event \<Rightarrow> outcome" where
  "main_iter st e =
     (let visible_ideas = (max_y e - 2) div 2 in
      if visible_ideas < 1 then (if key e = ord CHR ''q'' then Break st else Next st False)
      else
        (case shown_ideas st of
           None \<Rightarrow> Crash TypeError
         | Some ideas \<Rightarrow>
             (let num_ideas = int (length ideas);
                  st1 = clamp_view st num_ideas visible_ideas
              in case draw_rows ideas
                        [scroll_offset st1 ..
                           min num_ideas (scroll_offset st1 + visible_ideas) - 1] of
                   Some err \<Rightarrow> Crash err
                 | None \<Rightarrow> handle_key st1 ideas num_ideas visible_ideas e)))"

text \<open>
  The loop over the events the terminal delivers. When they run out the program sits in
  \<^verbatim>\<open>getch\<close> with the state \<open>Waiting st\<close>.
\<close>

datatype run = Waiting ui | Exited ui | Hung | Crashed py_error

fun main_loop :: "ui \<Rightarrow> event list \<Rightarrow> run" where
  "main_loop st [] = Waiting st"
| "main_loop st (e # es) =
     (case main_iter st e of
        Next st' flash \<Rightarrow> main_loop st' es
      | Break st' \<Rightarrow> Exited st'
      | Hang \<Rightarrow> Hung
      | Crash err \<Rightarrow> Crashed err)"

text \<open>The variables as \<^verbatim>\<open>main\<close> initialises them, on an opened connection.\<close>

definition init_ui :: "db \<Rightarrow> ui" where
  "init_ui c =
     \<lparr>conn = c, current_order = ''pos'', current_selection = 0, moving_idea_index = None,
      reorder_list = None, scroll_offset = 0\<rparr>"

subsection \<open>Notions used in the statements and proofs\<close>

text \<open>
  What the loop of \<open>update_idea_order_from\<close> does to one row \<open>r\<close> of the table: every
  entry of the list with the id of \<open>r\<close> overwrites its position, the last one wins.
\<close>

fun pos_after :: "nat \<Rightarrow> idea list \<Rightarrow> idea \<Rightarrow> idea" where
  "pos_after k [] r = r"
| "pos_after k (x # xs) r =
     pos_after (Suc k) xs (if idea_id r = idea_id x then r\<lparr>pos := int k\<rparr> else r)"

text \<open>A list of rows with the positions rewritten to \<open>k, k + 1, ...\<close> in list order.\<close>

fun renumber :: "nat \<Rightarrow> idea list \<Rightarrow> idea list" where
  "renumber k [] = []"
| "renumber k (x # xs) = x\<lparr>pos := int k\<rparr> # renumber (Suc k) xs"

text \<open>
  The state while an idea moves, over the table \<open>c\<close> that was scanned on entry: manual
  order, the table untouched, the working list a permutation of the table's rows, the
  moving index inside the list (0 when the list is empty), the scroll offset not negative.
\<close>

definition moving_inv :: "db \<Rightarrow> ui \<Rightarrow> bool" where
  "moving_inv c st =
     (conn st = c \<and> current_order st = ''pos'' \<and> 0 \<le> scroll_offset st \<and>
      (case moving_idea_index st of
         None \<Rightarrow> False
       | Some m \<Rightarrow>
           (case reorder_list st of
              None \<Rightarrow> False
            | Some l \<Rightarrow> mset l = mset (rows c) \<and> 0 \<le> m \<and> m < max 1 (int (length l)))))"

text \<open>Concrete inputs for the examples: three ideas A, B, C at positions 0, 1, 2.\<close>

definition mk_idea :: "int \<Rightarrow> string \<Rightarrow> int \<Rightarrow> idea" where
  "mk_idea i t p =
     \<lparr>idea_id = i, title = str_of t, pos = p, created_date = str_of ''2024-01-01'',
      notes_text = [], archived = 0\<rparr>"

definition abc_db :: db where
  "abc_db = \<lparr>rows = [mk_idea 1 ''A'' 0, mk_idea 2 ''B'' 1, mk_idea 3 ''C'' 2], seq = 3\<rparr>"

text \<open>An event that is only a key press, in a window of 24 lines and 80 columns.\<close>

definition key_event :: "int \<Rightarrow> event" where
  "key_event k =
     \<lparr>max_y = 24, max_x = 80, key = k, order_choice = Some [], title_keys = [], notes_edit = None,
      confirm_keys = [], today = []\<rparr>"

text \<open>
  The initial state on A, B, C with B selected, and a table whose positions have gaps and
  do not follow the rowid order.
\<close>

definition b_selected :: ui where
  "b_selected = (init_ui abc_db)\<lparr>current_selection := 1\<rparr>"

definition gap_db :: db where
  "gap_db = \<lparr>rows = [mk_idea 1 ''A'' 5, mk_idea 2 ''B'' 0, mk_idea 3 ''C'' 9], seq = 7\<rparr>"

text \<open>A, B, C shown by date with C selected.\<close>

definition by_date :: ui where
  "by_date = (init_ui abc_db)\<lparr>current_order := ''created_date'', current_selection := 2\<rparr>"

text \<open>
  The scenario of the specification: one idea titled "Old"; in the edit dialog the user
  presses ENTER at once, leaves the notes box with "  trimmed  " and confirms with y.
\<close>

definition old_db :: db where
  "old_db = \<lparr>rows = [\<lparr>idea_id = 1, title = str_of ''Old'', pos = 0,
                       created_date = str_of ''2024-01-01'', notes_text = str_of ''x'',
                       archived = 0\<rparr>], seq = 1\<rparr>"

definition edit_event :: event where
  "edit_event =
     \<lparr>max_y = 24, max_x = 80, key = ord CHR ''e'', order_choice = Some [], title_keys = [10],
      notes_edit = Some (str_of ''  trimmed  ''), confirm_keys = [ord CHR ''y''], today = []\<rparr>"

text \<open>The a key, then h, i and ESC at the title, in a terminal of 24 by 80.\<close>

definition cancel_event :: event where
  "cancel_event =
     \<lparr>max_y = 24, max_x = 80, key = ord CHR ''a'', order_choice = Some [],
      title_keys = [ord CHR ''h'', ord CHR ''i'', 27],
      notes_edit = Some (str_of ''never used''), confirm_keys = [ord CHR ''y''], today = []\<rparr>"

section \<open>Properties\<close>

subsection \<open>The table operations\<close>


lemma select_max_pos_Max:
  "select_max_pos rs = (if rs = [] then None else Some (Max (pos ` set rs)))"
  by (induction rs) (auto simp: max_def Max_insert split: option.splits)

lemma update_idea_order_from_map:
  "update_idea_order_from rs k l = map (pos_after k l) rs"
proof (induction l arbitrary: rs k)
  case Nil
  show ?case by (simp add: map_idI)
next
  case (Cons x xs)
  then show ?case by (simp add: set_pos_def comp_def)
qed

lemma pos_after_id [simp]: "idea_id (pos_after k l r) = idea_id r"
  by (induction l arbitrary: k r) simp_all

lemma pos_after_absent:
  "idea_id r \<notin> idea_id ` set l \<Longrightarrow> pos_after k l r = r"
  by (induction l arbitrary: k) simp_all

lemma pos_after_renumber:
  "distinct (map idea_id l) \<Longrightarrow> map (pos_after k l) l = renumber k l"
proof (induction l arbitrary: k)
  case Nil
  then show ?case by simp
next
  case (Cons x xs)
  have hd: "pos_after k (x # xs) x = x\<lparr>pos := int k\<rparr>"
    using Cons.prems by (simp add: pos_after_absent)
  have "idea_id r \<noteq> idea_id x" if "r \<in> set xs" for r
  proof
    assume "idea_id r = idea_id x"
    then have "idea_id x \<in> idea_id ` set xs" using that by (simp add: image_iff) metis
    then show False using Cons.prems by simp
  qed
  then have tl: "map (pos_after k (x # xs)) xs = map (pos_after (Suc k) xs) xs"
    by simp
  have ih: "map (pos_after (Suc k) xs) xs = renumber (Suc k) xs"
    using Cons.prems by (intro Cons.IH) simp
  show ?case by (simp only: list.map hd tl ih renumber.simps)
qed

lemma map_pos_renumber: "map pos (renumber k l) = map int [k ..< k + length l]"
  by (induction l arbitrary: k) (simp_all add: upt_rec)

lemma map_id_renumber: "map idea_id (renumber k l) = map idea_id l"
  by (induction l arbitrary: k) simp_all

lemma length_renumber [simp]: "length (renumber k l) = length l"
  by (induction l arbitrary: k) simp_all

lemma sorted_pos_renumber: "sorted (map pos (renumber k l))"
  unfolding map_pos_renumber by (simp add: sorted_map strict_sorted_iff[symmetric] sorted_wrt_map)
  
lemma distinct_pos_renumber: "distinct (map pos (renumber k l))"
  unfolding map_pos_renumber by (simp add: distinct_map inj_on_def)

lemma scan_after_update:
  assumes perm: "mset l = mset (rows c)" and pk: "distinct (map idea_id (rows c))"
  shows "get_ideas (update_idea_order c l) ''pos'' = renumber 0 l"
proof -
  have dl: "distinct (map idea_id l)"
    using perm pk by (metis mset_eq_imp_distinct_iff mset_map)
  let ?rs = "map (pos_after 0 l) (rows c)"
  have m: "mset ?rs = mset (renumber 0 l)"
    using perm pos_after_renumber[OF dl, of 0] by (metis mset_map)
  have "inj_on pos (set (renumber 0 l))"
    using distinct_pos_renumber[of 0 l] by (simp add: distinct_map)
  then have inj: "inj_on pos (set ?rs)"
    using m by (metis mset_eq_setD)
  have "sort_key pos ?rs = renumber 0 l"
    using m inj sorted_pos_renumber by (rule sort_key_inj_key_eq)
  then show ?thesis
    by (simp add: get_ideas_def update_idea_order_def update_idea_order_from_map)
qed

lemma get_ideas_filter:
  "get_ideas (c\<lparr>rows := filter P (rows c)\<rparr>) order_by = filter P (get_ideas c order_by)"
  by (simp add: get_ideas_def filter_sort)

lemma filter_absent_id:
  "i \<notin> idea_id ` set rs \<Longrightarrow> filter (\<lambda>x. idea_id x \<noteq> i) rs = rs"
  by (induction rs) auto

lemma length_filter_one_id:
  "distinct (map idea_id rs) \<Longrightarrow> i \<in> idea_id ` set rs \<Longrightarrow>
     Suc (length (filter (\<lambda>x. idea_id x \<noteq> i) rs)) = length rs"
proof (induction rs)
  case Nil
  then show ?case by simp
next
  case (Cons x xs)
  show ?case
  proof (cases "idea_id x = i")
    case True
    then have "i \<notin> idea_id ` set xs" using Cons.prems(1) by auto
    then show ?thesis using True by (simp add: filter_absent_id)
  next
    case False
    then have "i \<in> idea_id ` set xs" using Cons.prems(2) by auto
    then show ?thesis using False Cons by simp
  qed
qed

subsection \<open>The event loop while an idea moves\<close>

lemma clamp_view_fields [simp]:
  "conn (clamp_view st n v) = conn st"
  "current_order (clamp_view st n v) = current_order st"
  "moving_idea_index (clamp_view st n v) = moving_idea_index st"
  "reorder_list (clamp_view st n v) = reorder_list st"
  by (simp_all add: clamp_view_def Let_def)

lemma clamp_view_scroll:
  "0 \<le> scroll_offset st \<Longrightarrow> 0 \<le> scroll_offset (clamp_view st n v)"
  by (simp add: clamp_view_def Let_def)

lemma draw_rows_in_range:
  "\<forall>i \<in> set idxs. 0 \<le> i \<and> i < int (length ideas) \<Longrightarrow> draw_rows ideas idxs = None"
  by (induction idxs) (simp_all add: py_get_def Let_def)

lemma draw_rows_window:
  "0 \<le> off \<Longrightarrow> draw_rows ideas [off .. min (int (length ideas)) (off + v) - 1] = None"
  by (rule draw_rows_in_range) auto

lemma clamp_view_selection:
  "current_selection (clamp_view st n v) = max 0 (min (current_selection st) (n - 1))"
  by (simp add: clamp_view_def Let_def max_def min_def)

lemma clamp_view_selection_range:
  "0 \<le> current_selection (clamp_view st n v)"
  "current_selection (clamp_view st n v) < max 1 n"
  by (auto simp: clamp_view_selection)

lemma py_get_in_range:
  "0 \<le> i \<Longrightarrow> i < int (length xs) \<Longrightarrow> py_get xs i = Inr (xs ! nat i)"
  by (simp add: py_get_def Let_def)

lemma py_set_in_range:
  "0 \<le> i \<Longrightarrow> i < int (length xs) \<Longrightarrow> py_set xs i v = Inr (xs[nat i := v])"
  by (simp add: py_set_def Let_def)

lemma py_swap_in_range:
  "0 \<le> i \<Longrightarrow> i < int (length xs) \<Longrightarrow> 0 \<le> j \<Longrightarrow> j < int (length xs) \<Longrightarrow>
     py_swap xs i j = Inr (xs[nat i := xs ! nat j, nat j := xs ! nat i])"
  by (simp add: py_swap_def py_get_in_range py_set_in_range)

lemma mset_swapped:
  "0 \<le> i \<Longrightarrow> i < int (length xs) \<Longrightarrow> 0 \<le> j \<Longrightarrow> j < int (length xs) \<Longrightarrow>
     mset (xs[nat i := xs ! nat j, nat j := xs ! nat i]) = mset xs"
  by (simp add: mset_swap)

lemma on_key_up_moving:
  assumes "moving_idea_index st = Some m" "reorder_list st = Some l"
    and "0 \<le> m" "m < max 1 (int (length l))"
  shows "on_key_up st =
     Next (if m > 0
           then st\<lparr>reorder_list := Some (l[nat m := l ! nat (m - 1), nat (m - 1) := l ! nat m]),
                   moving_idea_index := Some (m - 1), current_selection := m - 1\<rparr>
           else st) False"
  using assms by (simp add: on_key_up_def py_swap_in_range)

lemma on_key_down_moving:
  assumes "moving_idea_index st = Some m" "reorder_list st = Some l"
    and "0 \<le> m" "m < max 1 (int (length l))"
  shows "on_key_down st (int (length l)) =
     Next (if m < int (length l) - 1
           then st\<lparr>reorder_list := Some (l[nat m := l ! nat (m + 1), nat (m + 1) := l ! nat m]),
                   moving_idea_index := Some (m + 1), current_selection := m + 1\<rparr>
           else st) False"
  using assms by (simp add: on_key_down_def py_swap_in_range)

lemma handle_key_moving_other:
  assumes "moving_idea_index st = Some m"
    and "key e \<noteq> ord CHR ''q''" "key e \<noteq> KEY_UP" "key e \<noteq> KEY_DOWN" "key e \<noteq> ord CHR '' ''"
  shows "handle_key st ideas n v e = Next st False"
  using assms by (simp add: handle_key_def ord_def)


lemma moving_invI:
  "conn st = c \<Longrightarrow> current_order st = ''pos'' \<Longrightarrow> 0 \<le> scroll_offset st \<Longrightarrow>
   moving_idea_index st = Some m \<Longrightarrow>
   reorder_list st = Some l \<Longrightarrow> mset l = mset (rows c) \<Longrightarrow> 0 \<le> m \<Longrightarrow>
   m < max 1 (int (length l)) \<Longrightarrow> moving_inv c st"
  by (simp add: moving_inv_def)

lemma moving_invE:
  assumes "moving_inv c st"
  obtains m l where "conn st = c" "current_order st = ''pos''" "moving_idea_index st = Some m"
    "reorder_list st = Some l" "mset l = mset (rows c)" "0 \<le> m" "m < max 1 (int (length l))"
    "0 \<le> scroll_offset st"
  using assms by (auto simp: moving_inv_def split: option.splits)

lemma moving_inv_clamp_view:
  "moving_inv c st \<Longrightarrow> moving_inv c (clamp_view st n v)"
  by (erule moving_invE, rule moving_invI) (simp_all add: clamp_view_scroll)

lemma handle_key_moving:
  assumes inv: "moving_inv c st" and l: "reorder_list st = Some l"
    and nq: "key e \<noteq> ord CHR ''q''" and ns: "key e \<noteq> ord CHR '' ''"
  shows "\<exists>st'. handle_key st l (int (length l)) v e = Next st' False \<and> moving_inv c st'"
proof -
  from inv l obtain m where st: "conn st = c" "current_order st = ''pos''"
      "moving_idea_index st = Some m" "mset l = mset (rows c)" "0 \<le> m"
      "m < max 1 (int (length l))" "0 \<le> scroll_offset st"
    by (auto elim!: moving_invE)
  consider (up) "key e = KEY_UP" | (down) "key e = KEY_DOWN"
    | (other) "key e \<noteq> KEY_UP" "key e \<noteq> KEY_DOWN"
    by blast
  then show ?thesis
  proof cases
    case up
    then have h: "handle_key st l (int (length l)) v e = on_key_up st"
      by (simp add: handle_key_def ord_def)
    show ?thesis
    proof (cases "m > 0")
      case True
      then have r: "m < int (length l)" "0 \<le> m - 1" "m - 1 < int (length l)"
        using st by auto
      let ?l' = "l[nat m := l ! nat (m - 1), nat (m - 1) := l ! nat m]"
      let ?st' = "st\<lparr>reorder_list := Some ?l', moving_idea_index := Some (m - 1),
                      current_selection := m - 1\<rparr>"
      have "mset ?l' = mset l"
        using st(5) r by (intro mset_swapped) simp_all
      then have "moving_inv c ?st'"
        using st r by (intro moving_invI [where m = "m - 1" and l = ?l']) simp_all
      moreover have "on_key_up st = Next ?st' False"
        using on_key_up_moving [OF st(3) l st(5) st(6)] True by simp
      ultimately show ?thesis using h by auto
    next
      case False
      then have "on_key_up st = Next st False"
        using on_key_up_moving [OF st(3) l st(5) st(6)] by simp
      then show ?thesis using h inv by auto
    qed
  next
    case down
    then have h: "handle_key st l (int (length l)) v e = on_key_down st (int (length l))"
      by (simp add: handle_key_def ord_def)
    show ?thesis
    proof (cases "m < int (length l) - 1")
      case True
      then have r: "m < int (length l)" "0 \<le> m + 1" "m + 1 < int (length l)"
        using st by auto
      let ?l' = "l[nat m := l ! nat (m + 1), nat (m + 1) := l ! nat m]"
      let ?st' = "st\<lparr>reorder_list := Some ?l', moving_idea_index := Some (m + 1),
                      current_selection := m + 1\<rparr>"
      have "mset ?l' = mset l"
        using st(5) r by (intro mset_swapped) simp_all
      then have "moving_inv c ?st'"
        using st r by (intro moving_invI [where m = "m + 1" and l = ?l']) simp_all
      moreover have "on_key_down st (int (length l)) = Next ?st' False"
        using on_key_down_moving [OF st(3) l st(5) st(6)] True by simp
      ultimately show ?thesis using h by auto
    next
      case False
      then have "on_key_down st (int (length l)) = Next st False"
        using on_key_down_moving [OF st(3) l st(5) st(6)] by simp
      then show ?thesis using h inv by auto
    qed
  next
    case other
    then have "handle_key st l (int (length l)) v e = Next st False"
      using handle_key_moving_other [OF st(3) nq _ _ ns] by simp
    then show ?thesis using inv by auto
  qed
qed

lemma main_iter_small:
  "(max_y e - 2) div 2 < 1 \<Longrightarrow> key e \<noteq> ord CHR ''q'' \<Longrightarrow> main_iter st e = Next st False"
  by (simp add: main_iter_def)

lemma main_iter_visible:
  "1 \<le> (max_y e - 2) div 2 \<Longrightarrow> 0 \<le> scroll_offset st \<Longrightarrow> shown_ideas st = Some ideas \<Longrightarrow>
   main_iter st e =
     handle_key (clamp_view st (int (length ideas)) ((max_y e - 2) div 2)) ideas
       (int (length ideas)) ((max_y e - 2) div 2) e"
  by (simp add: main_iter_def Let_def draw_rows_window clamp_view_scroll)

lemma main_iter_eval:
  "1 \<le> (max_y e - 2) div 2 \<Longrightarrow> 0 \<le> scroll_offset st \<Longrightarrow>
   main_iter st e =
     (case shown_ideas st of
        None \<Rightarrow> Crash TypeError
      | Some ideas \<Rightarrow>
          handle_key (clamp_view st (int (length ideas)) ((max_y e - 2) div 2)) ideas
            (int (length ideas)) ((max_y e - 2) div 2) e)"
  by (cases "shown_ideas st") (simp_all add: main_iter_visible, simp add: main_iter_def)

lemma main_iter_moving:
  assumes inv: "moving_inv c st"
    and nq: "key e \<noteq> ord CHR ''q''"
    and ns: "key e = ord CHR '' '' \<longrightarrow> (max_y e - 2) div 2 < 1"
  shows "\<exists>st'. main_iter st e = Next st' False \<and> moving_inv c st'"
proof (cases "(max_y e - 2) div 2 < 1")
  case True
  then show ?thesis using inv nq by (auto simp: main_iter_small)
next
  case False
  from inv obtain m l where ml: "moving_idea_index st = Some m" "reorder_list st = Some l"
    and sc: "0 \<le> scroll_offset st"
    by (auto elim!: moving_invE)
  then have sh: "shown_ideas st = Some l" by (simp add: shown_ideas_def)
  let ?st1 = "clamp_view st (int (length l)) ((max_y e - 2) div 2)"
  have "moving_inv c ?st1" using inv by (rule moving_inv_clamp_view)
  moreover have "reorder_list ?st1 = Some l" using ml by simp
  moreover have "key e \<noteq> ord CHR '' ''" using ns False by auto
  ultimately have "\<exists>st'. handle_key ?st1 l (int (length l)) ((max_y e - 2) div 2) e
      = Next st' False \<and> moving_inv c st'"
    using nq by (intro handle_key_moving)
  then show ?thesis using False sh sc by (simp add: main_iter_visible)
qed

lemma main_loop_append:
  "main_loop st es = Waiting st' \<Longrightarrow> main_loop st (es @ fs) = main_loop st' fs"
proof (induction es arbitrary: st)
  case Nil
  then show ?case by simp
next
  case (Cons e es)
  then show ?case by (cases "main_iter st e") simp_all
qed

lemma main_loop_moving:
  assumes "moving_inv c st"
    and "\<forall>e \<in> set es. key e \<noteq> ord CHR ''q''
           \<and> (key e = ord CHR '' '' \<longrightarrow> (max_y e - 2) div 2 < 1)"
  shows "\<exists>st'. main_loop st es = Waiting st' \<and> moving_inv c st'"
  using assms
proof (induction es arbitrary: st)
  case Nil
  then show ?case by simp
next
  case (Cons e es)
  then obtain st1 where s1: "main_iter st e = Next st1 False" "moving_inv c st1"
    using main_iter_moving [of c st e] by auto
  then obtain st' where "main_loop st1 es = Waiting st'" "moving_inv c st'"
    using Cons by auto
  then show ?case using s1 by simp
qed

lemma main_iter_enter:
  assumes "moving_idea_index st = None" "current_order st = ''pos''"
    and "key e = ord CHR '' ''" "1 \<le> (max_y e - 2) div 2"
    and "0 \<le> scroll_offset st"
  shows "\<exists>st'. main_iter st e = Next st' False \<and> moving_inv (conn st) st'
      \<and> reorder_list st' = Some (get_ideas (conn st) ''pos'')"
proof -
  let ?ideas = "get_ideas (conn st) ''pos''"
  let ?v = "(max_y e - 2) div 2"
  let ?st1 = "clamp_view st (int (length ?ideas)) ?v"
  let ?st' = "?st1\<lparr>reorder_list := Some ?ideas,
                    moving_idea_index := Some (current_selection ?st1)\<rparr>"
  have sh: "shown_ideas st = Some ?ideas" using assms by (simp add: shown_ideas_def)
  have "handle_key ?st1 ?ideas (int (length ?ideas)) ?v e = Next ?st' False"
    using assms by (simp add: handle_key_def ord_def on_key_space_def)
  then have it: "main_iter st e = Next ?st' False"
    using assms(4,5) sh by (simp add: main_iter_visible)
  have "mset ?ideas = mset (rows (conn st))" by (simp add: get_ideas_def)
  then have "moving_inv (conn st) ?st'"
    using assms clamp_view_selection_range [of st "int (length ?ideas)" ?v]
    by (intro moving_invI [where m = "current_selection ?st1" and l = ?ideas])
      (simp_all add: clamp_view_scroll)
  then show ?thesis using it by simp
qed

lemma main_iter_confirm:
  assumes inv: "moving_inv c st" and l: "reorder_list st = Some l"
    and m: "moving_idea_index st = Some m"
    and "key e = ord CHR '' ''" "1 \<le> (max_y e - 2) div 2"
  shows "\<exists>st'. main_iter st e = Next st' False \<and> conn st' = update_idea_order c l
      \<and> moving_idea_index st' = None \<and> reorder_list st' = None
      \<and> current_selection st' = m \<and> current_order st' = ''pos''"
proof -
  let ?v = "(max_y e - 2) div 2"
  let ?st1 = "clamp_view st (int (length l)) ?v"
  from inv have st: "conn st = c" "current_order st = ''pos''" and sc: "0 \<le> scroll_offset st"
    by (auto elim!: moving_invE)
  have sh: "shown_ideas st = Some l" using l m by (simp add: shown_ideas_def)
  have "handle_key ?st1 l (int (length l)) ?v e = on_key_space ?st1"
    using assms by (simp add: handle_key_def ord_def)
  then have "main_iter st e = on_key_space ?st1"
    using assms(5) sh sc by (simp add: main_iter_visible)
  then show ?thesis using st l m by (simp add: on_key_space_def)
qed

subsection \<open>The scroll offset\<close>

text \<open>
  The scroll offset starts at 0 and no iteration makes it negative, so it is not negative
  in any state the loop reaches; the rows drawn are then read inside the list. The
  statements about whole iterations below are about such states.
\<close>

lemma on_key_up_scroll:
  "on_key_up s = Next s' fl \<Longrightarrow> scroll_offset s' = scroll_offset s"
  by (auto simp: on_key_up_def split: option.splits if_splits sum.splits)

lemma on_key_down_scroll:
  "on_key_down s n = Next s' fl \<Longrightarrow> scroll_offset s' = scroll_offset s"
  by (auto simp: on_key_down_def split: option.splits if_splits sum.splits)

lemma on_key_o_scroll: "on_key_o s e = Next s' fl \<Longrightarrow> scroll_offset s' = 0"
  by (auto simp: on_key_o_def split: option.splits)

lemma on_key_a_scroll:
  "on_key_a s v e = Next s' fl \<Longrightarrow> 0 \<le> scroll_offset s \<Longrightarrow> 0 \<le> scroll_offset s'"
  by (auto simp: on_key_a_def Let_def split: io.splits option.splits if_splits)

lemma on_key_delete_scroll:
  "on_key_delete s ideas n = Next s' fl \<Longrightarrow> 0 \<le> scroll_offset s \<Longrightarrow> 0 \<le> scroll_offset s'"
  by (auto simp: on_key_delete_def Let_def split: sum.splits if_splits)

lemma on_key_d_scroll:
  "on_key_d s ideas n = Next s' fl \<Longrightarrow> scroll_offset s' = scroll_offset s"
  by (auto simp: on_key_d_def split: sum.splits if_splits)

lemma on_key_e_scroll:
  "on_key_e s ideas n e = Next s' fl \<Longrightarrow> scroll_offset s' = scroll_offset s"
  by (auto simp: on_key_e_def split: sum.splits if_splits io.splits option.splits)

lemma on_key_space_scroll:
  "on_key_space s = Next s' fl \<Longrightarrow> scroll_offset s' = scroll_offset s"
  by (auto simp: on_key_space_def split: option.splits if_splits)

lemma handle_key_scroll:
  assumes "handle_key s ideas n v e = Next s' fl" "0 \<le> scroll_offset s"
  shows "0 \<le> scroll_offset s'"
proof -
  consider "s' = s"
    | "on_key_up s = Next s' fl" | "on_key_down s n = Next s' fl" | "on_key_o s e = Next s' fl"
    | "on_key_a s v e = Next s' fl" | "on_key_delete s ideas n = Next s' fl"
    | "on_key_d s ideas n = Next s' fl" | "on_key_e s ideas n e = Next s' fl"
    | "on_key_space s = Next s' fl"
    using assms(1) unfolding handle_key_def by (auto split: if_splits)
  then show ?thesis
    using assms(2)
    by cases (auto dest: on_key_up_scroll on_key_down_scroll on_key_o_scroll on_key_a_scroll
        on_key_delete_scroll on_key_d_scroll on_key_e_scroll on_key_space_scroll)
qed

lemma main_iter_scroll:
  assumes "main_iter st e = Next st' fl" "0 \<le> scroll_offset st"
  shows "0 \<le> scroll_offset st'"
proof (cases "1 \<le> (max_y e - 2) div 2")
  case False
  then have "st' = st" using assms(1) by (auto simp: main_iter_def split: if_splits)
  then show ?thesis using assms(2) by simp
next
  case True
  then obtain ideas where
    "handle_key (clamp_view st (int (length ideas)) ((max_y e - 2) div 2)) ideas
       (int (length ideas)) ((max_y e - 2) div 2) e = Next st' fl"
    using assms by (cases "shown_ideas st") (auto simp: main_iter_eval)
  then show ?thesis using clamp_view_scroll [OF assms(2)] by (rule handle_key_scroll)
qed

lemma main_loop_scroll:
  "main_loop st es = Waiting st' \<Longrightarrow> 0 \<le> scroll_offset st \<Longrightarrow> 0 \<le> scroll_offset st'"
proof (induction es arbitrary: st)
  case Nil
  then show ?case by simp
next
  case (Cons e es)
  then show ?case
    by (cases "main_iter st e") (auto dest: main_iter_scroll)
qed

lemma reachable_scroll:
  "main_loop (init_ui c) es = Waiting st \<Longrightarrow> 0 \<le> scroll_offset st"
  by (erule main_loop_scroll) (simp add: init_ui_def)

subsection \<open>Move sessions\<close>

lemma pos_after_only_pos: "(pos_after k l r)\<lparr>pos := p\<rparr> = r\<lparr>pos := p\<rparr>"
  by (induction l arbitrary: k r) simp_all

lemma rows_update_idea_order:
  "map (\<lambda>r. r\<lparr>pos := p\<rparr>) (rows (update_idea_order c l)) = map (\<lambda>r. r\<lparr>pos := p\<rparr>) (rows c)"
  by (simp add: update_idea_order_def update_idea_order_from_map pos_after_only_pos)

lemma main_loop_session:
  assumes "moving_idea_index st = None" "current_order st = ''pos''"
    and "key e0 = ord CHR '' ''" "1 \<le> (max_y e0 - 2) div 2"
    and "\<forall>e \<in> set evs. key e \<noteq> ord CHR ''q''
           \<and> (key e = ord CHR '' '' \<longrightarrow> (max_y e - 2) div 2 < 1)"
    and "0 \<le> scroll_offset st"
  shows "\<exists>mid. main_loop st (e0 # evs) = Waiting mid \<and> moving_inv (conn st) mid"
proof -
  obtain st1 where s1: "main_iter st e0 = Next st1 False" "moving_inv (conn st) st1"
    using main_iter_enter [OF assms(1-4) assms(6)] by auto
  obtain mid where "main_loop st1 evs = Waiting mid" "moving_inv (conn st) mid"
    using main_loop_moving [OF s1(2) assms(5)] by auto
  then show ?thesis using s1 by simp
qed

lemma main_loop_snoc:
  "main_loop st es = Waiting mid \<Longrightarrow> main_iter mid e = Next fin fl \<Longrightarrow>
   main_loop st (es @ [e]) = Waiting fin"
  by (simp add: main_loop_append)

text \<open>
  Claim C1. A move session starts in the idle state (scroll offset not negative, as in
  every state the loop reaches) under manual order with the space key, goes on with any
  keys but q and an effective space, and ends with space. Ids are unique, as the primary
  key makes them. Then the loop is waiting for the next key, no longer moving, with the
  selection at the final moving index, and the table read back by position is the working
  list \<open>snap\<close> as it stood at the confirmation, in that order, with the positions
  0, 1, ..., N - 1.
\<close>

theorem move_session_commit:
  assumes pk: "distinct (map idea_id (rows (conn st)))"
    and idle: "moving_idea_index st = None" and ord: "current_order st = ''pos''"
    and sc: "0 \<le> scroll_offset st"
    and e0: "key e0 = ord CHR '' ''" "1 \<le> (max_y e0 - 2) div 2"
    and evs: "\<forall>e \<in> set evs. key e \<noteq> ord CHR ''q''
           \<and> (key e = ord CHR '' '' \<longrightarrow> (max_y e - 2) div 2 < 1)"
    and e1: "key e1 = ord CHR '' ''" "1 \<le> (max_y e1 - 2) div 2"
  shows "\<exists>mid m snap fin.
      main_loop st (e0 # evs) = Waiting mid
    \<and> moving_idea_index mid = Some m \<and> reorder_list mid = Some snap
    \<and> main_loop st (e0 # evs @ [e1]) = Waiting fin
    \<and> moving_idea_index fin = None \<and> reorder_list fin = None \<and> current_selection fin = m
    \<and> get_ideas (conn fin) ''pos'' = renumber 0 snap
    \<and> map idea_id (get_ideas (conn fin) ''pos'') = map idea_id snap
    \<and> map pos (get_ideas (conn fin) ''pos'') = map int [0 ..< length snap]"
proof -
  obtain mid where mid: "main_loop st (e0 # evs) = Waiting mid" "moving_inv (conn st) mid"
    using main_loop_session [OF idle ord e0 evs sc] by auto
  from mid(2) obtain m snap where ms: "moving_idea_index mid = Some m"
      "reorder_list mid = Some snap" "mset snap = mset (rows (conn st))"
    by (auto elim!: moving_invE)
  obtain fin where fin: "main_iter mid e1 = Next fin False"
      "conn fin = update_idea_order (conn st) snap" "moving_idea_index fin = None"
      "reorder_list fin = None" "current_selection fin = m"
    using main_iter_confirm [OF mid(2) ms(2) ms(1) e1] by auto
  have lp: "main_loop st (e0 # evs @ [e1]) = Waiting fin"
    using main_loop_snoc [OF mid(1) fin(1)] by simp
  have scan: "get_ideas (conn fin) ''pos'' = renumber 0 snap"
    using scan_after_update [OF ms(3) pk] fin(2) by simp
  have "map pos (renumber 0 snap) = map int [0 ..< length snap]"
    using map_pos_renumber [of 0 snap] by simp
  then show ?thesis
    using mid(1) ms(1,2) lp fin(3-5) scan by (simp add: map_id_renumber)
qed

text \<open>
  Claim C3. Entering move mode from an idle state the loop can reach and confirming at
  once leaves the sequence of ids read back by position as it was; the rows read back are
  the old scan with positions rewritten to 0, 1, ..., N - 1.
\<close>

theorem move_enter_confirm_identity:
  assumes pk: "distinct (map idea_id (rows (conn st)))"
    and idle: "moving_idea_index st = None" and ord: "current_order st = ''pos''"
    and sc: "0 \<le> scroll_offset st"
    and e0: "key e0 = ord CHR '' ''" "1 \<le> (max_y e0 - 2) div 2"
    and e1: "key e1 = ord CHR '' ''" "1 \<le> (max_y e1 - 2) div 2"
  shows "\<exists>fin. main_loop st [e0, e1] = Waiting fin
    \<and> moving_idea_index fin = None
    \<and> map idea_id (get_ideas (conn fin) ''pos'') = map idea_id (get_ideas (conn st) ''pos'')
    \<and> get_ideas (conn fin) ''pos'' = renumber 0 (get_ideas (conn st) ''pos'')"
proof -
  let ?scan = "get_ideas (conn st) ''pos''"
  obtain mid where mid: "main_iter st e0 = Next mid False" "moving_inv (conn st) mid"
      "reorder_list mid = Some ?scan"
    using main_iter_enter [OF idle ord e0 sc] by auto
  from mid(2) obtain m where m: "moving_idea_index mid = Some m"
    by (auto elim!: moving_invE)
  obtain fin where fin: "main_iter mid e1 = Next fin False"
      "conn fin = update_idea_order (conn st) ?scan" "moving_idea_index fin = None"
    using main_iter_confirm [OF mid(2) mid(3) m e1] by auto
  have "mset ?scan = mset (rows (conn st))" by (simp add: get_ideas_def)
  then have "get_ideas (conn fin) ''pos'' = renumber 0 ?scan"
    using scan_after_update [OF _ pk] fin(2) by simp
  then show ?thesis using mid(1) fin(1,3) by (simp add: map_id_renumber)
qed

text \<open>
  Claim C9. In every state \<open>mid\<close> reached inside a move session (entered from an idle
  state the loop can reach) the table is untouched and the working list is a permutation
  of the scan by position taken on entry. The up key there exchanges the moving entry
  with the one before it and does nothing at index 0; the down key exchanges it with the
  one after it and does nothing at the last index; both exchanges keep the multiset of
  the list. The confirmation writes that list, and the table it leaves has the rows of
  the old one, in the same places, changed in their positions only.
\<close>

theorem move_session_permutation:
  assumes idle: "moving_idea_index st = None" and ord: "current_order st = ''pos''"
    and sc: "0 \<le> scroll_offset st"
    and e0: "key e0 = ord CHR '' ''" "1 \<le> (max_y e0 - 2) div 2"
    and evs: "\<forall>e \<in> set evs. key e \<noteq> ord CHR ''q''
           \<and> (key e = ord CHR '' '' \<longrightarrow> (max_y e - 2) div 2 < 1)"
    and e1: "key e1 = ord CHR '' ''" "1 \<le> (max_y e1 - 2) div 2"
  shows "\<exists>mid m l fin.
      main_loop st (e0 # evs) = Waiting mid \<and> conn mid = conn st
    \<and> moving_idea_index mid = Some m \<and> reorder_list mid = Some l
    \<and> mset l = mset (get_ideas (conn st) ''pos'')
    \<and> on_key_up mid =
        Next (if 0 < m
              then mid\<lparr>reorder_list := Some (l[nat m := l ! nat (m - 1), nat (m - 1) := l ! nat m]),
                       moving_idea_index := Some (m - 1), current_selection := m - 1\<rparr>
              else mid) False
    \<and> on_key_down mid (int (length l)) =
        Next (if m < int (length l) - 1
              then mid\<lparr>reorder_list := Some (l[nat m := l ! nat (m + 1), nat (m + 1) := l ! nat m]),
                       moving_idea_index := Some (m + 1), current_selection := m + 1\<rparr>
              else mid) False
    \<and> (0 < m \<longrightarrow> mset (l[nat m := l ! nat (m - 1), nat (m - 1) := l ! nat m]) = mset l)
    \<and> (m < int (length l) - 1 \<longrightarrow>
          mset (l[nat m := l ! nat (m + 1), nat (m + 1) := l ! nat m]) = mset l)
    \<and> main_loop st (e0 # evs @ [e1]) = Waiting fin
    \<and> conn fin = update_idea_order (conn st) l
    \<and> map (\<lambda>r. r\<lparr>pos := 0\<rparr>) (rows (conn fin)) = map (\<lambda>r. r\<lparr>pos := 0\<rparr>) (rows (conn st))"
proof -
  obtain mid where mid: "main_loop st (e0 # evs) = Waiting mid" "moving_inv (conn st) mid"
    using main_loop_session [OF idle ord e0 evs sc] by auto
  from mid(2) obtain m l where ms: "conn mid = conn st" "moving_idea_index mid = Some m"
      "reorder_list mid = Some l" "mset l = mset (rows (conn st))" "0 \<le> m"
      "m < max 1 (int (length l))"
    by (auto elim!: moving_invE)
  have perm: "mset l = mset (get_ideas (conn st) ''pos'')"
    using ms(4) by (simp add: get_ideas_def)
  note up = on_key_up_moving [OF ms(2) ms(3) ms(5) ms(6)]
  note down = on_key_down_moving [OF ms(2) ms(3) ms(5) ms(6)]
  have sw_up: "mset (l[nat m := l ! nat (m - 1), nat (m - 1) := l ! nat m]) = mset l"
    if "0 < m"
    using that ms(6) by (intro mset_swapped) auto
  have sw_down: "mset (l[nat m := l ! nat (m + 1), nat (m + 1) := l ! nat m]) = mset l"
    if "m < int (length l) - 1"
    using that ms(5) by (intro mset_swapped) auto
  obtain fin where fin: "main_iter mid e1 = Next fin False"
      "conn fin = update_idea_order (conn st) l"
    using main_iter_confirm [OF mid(2) ms(3) ms(2) e1] by auto
  have lp: "main_loop st (e0 # evs @ [e1]) = Waiting fin"
    using main_loop_snoc [OF mid(1) fin(1)] by simp
  have same: "map (\<lambda>r. r\<lparr>pos := 0\<rparr>) (rows (conn fin))
      = map (\<lambda>r. r\<lparr>pos := 0\<rparr>) (rows (conn st))"
    using fin(2) by (simp only: rows_update_idea_order)
  from mid(1) ms(1-3) perm up down sw_up sw_down lp fin(2) same show ?thesis
    by blast
qed


lemmas run_defs = main_iter_eval shown_ideas_def clamp_view_def handle_key_def on_key_up_def
  on_key_down_def on_key_space_def ord_def key_event_def b_selected_def init_ui_def abc_db_def
  mk_idea_def get_ideas_def py_swap_def py_get_def py_set_def Let_def

lemma run_up: "main_loop b_selected [key_event 32, key_event KEY_UP] =
   Waiting (b_selected\<lparr>current_selection := 0, moving_idea_index := Some 0,
      reorder_list := Some [mk_idea 2 ''B'' 1, mk_idea 1 ''A'' 0, mk_idea 3 ''C'' 2]\<rparr>)"
  by (simp add: run_defs)

text \<open>
  The scenario of the specification: A, B, C at 0, 1, 2; B is moved up once and confirmed;
  the stored order is B, A, C at 0, 1, 2.
\<close>

theorem move_session_commit_witness:
  "\<exists>fin. main_loop b_selected [key_event 32, key_event KEY_UP, key_event 32] = Waiting fin
     \<and> map idea_id (get_ideas (conn fin) ''pos'') = [2, 1, 3]
     \<and> map pos (get_ideas (conn fin) ''pos'') = [0, 1, 2]"
proof -
  have pk: "distinct (map idea_id (rows (conn b_selected)))"
    by (simp add: run_defs)
  have idle: "moving_idea_index b_selected = None" "current_order b_selected = ''pos''"
      "0 \<le> scroll_offset b_selected"
    by (simp_all add: run_defs)
  have sp: "key (key_event 32) = ord CHR '' ''" "1 \<le> (max_y (key_event 32) - 2) div 2"
    by (simp_all add: run_defs)
  have mv: "\<forall>e \<in> set [key_event KEY_UP]. key e \<noteq> ord CHR ''q''
           \<and> (key e = ord CHR '' '' \<longrightarrow> (max_y e - 2) div 2 < 1)"
    by (simp add: run_defs)
  from move_session_commit [OF pk idle sp mv sp]
  obtain mid m snap fin where
      a: "main_loop b_selected [key_event 32, key_event KEY_UP] = Waiting mid"
      and b: "reorder_list mid = Some snap"
      and c: "main_loop b_selected [key_event 32, key_event KEY_UP, key_event 32] = Waiting fin"
      and d: "map idea_id (get_ideas (conn fin) ''pos'') = map idea_id snap"
      and e: "map pos (get_ideas (conn fin) ''pos'') = map int [0 ..< length snap]"
    by auto
  from a [unfolded run_up] b have "snap = [mk_idea 2 ''B'' 1, mk_idea 1 ''A'' 0, mk_idea 3 ''C'' 2]"
    by auto
  then have "map idea_id snap = [2, 1, 3]" "map int [0 ..< length snap] = [0, 1, 2]"
    by (simp_all add: mk_idea_def upt_rec)
  with c d e show ?thesis by simp
qed


theorem move_enter_confirm_identity_witness:
  "\<exists>fin. main_loop (init_ui gap_db) [key_event 32, key_event 32] = Waiting fin
     \<and> map idea_id (get_ideas (conn fin) ''pos'') = [2, 1, 3]
     \<and> map idea_id (get_ideas gap_db ''pos'') = [2, 1, 3]"
proof -
  have pk: "distinct (map idea_id (rows (conn (init_ui gap_db))))"
    by (simp add: init_ui_def gap_db_def mk_idea_def)
  have idle: "moving_idea_index (init_ui gap_db) = None"
      "current_order (init_ui gap_db) = ''pos''" "0 \<le> scroll_offset (init_ui gap_db)"
    by (simp_all add: init_ui_def)
  have sp: "key (key_event 32) = ord CHR '' ''" "1 \<le> (max_y (key_event 32) - 2) div 2"
    by (simp_all add: key_event_def ord_def)
  have scan: "map idea_id (get_ideas gap_db ''pos'') = [2, 1, 3]"
    by (simp add: get_ideas_def gap_db_def mk_idea_def)
  have "conn (init_ui gap_db) = gap_db" by (simp add: init_ui_def)
  with move_enter_confirm_identity [OF pk idle sp sp] scan show ?thesis
    by auto
qed

lemma run_down:
  "main_loop b_selected [key_event 32, key_event KEY_DOWN, key_event KEY_DOWN, key_event 97] =
   Waiting (b_selected\<lparr>current_selection := 2, moving_idea_index := Some 2,
      reorder_list := Some [mk_idea 1 ''A'' 0, mk_idea 3 ''C'' 2, mk_idea 2 ''B'' 1]\<rparr>)"
  by (simp add: run_defs)

theorem move_session_permutation_witness:
  "\<exists>mid l. main_loop b_selected
        [key_event 32, key_event KEY_DOWN, key_event KEY_DOWN, key_event 97] = Waiting mid
     \<and> reorder_list mid = Some l \<and> map idea_id l = [1, 3, 2]
     \<and> mset l = mset (get_ideas (conn b_selected) ''pos'')"
proof -
  have idle: "moving_idea_index b_selected = None" "current_order b_selected = ''pos''"
      "0 \<le> scroll_offset b_selected"
    by (simp_all add: run_defs)
  have sp: "key (key_event 32) = ord CHR '' ''" "1 \<le> (max_y (key_event 32) - 2) div 2"
    by (simp_all add: run_defs)
  have mv: "\<forall>e \<in> set [key_event KEY_DOWN, key_event KEY_DOWN, key_event 97].
           key e \<noteq> ord CHR ''q'' \<and> (key e = ord CHR '' '' \<longrightarrow> (max_y e - 2) div 2 < 1)"
    by (simp add: run_defs)
  from move_session_permutation [OF idle sp mv sp]
  obtain mid l where
      a: "main_loop b_selected
            [key_event 32, key_event KEY_DOWN, key_event KEY_DOWN, key_event 97] = Waiting mid"
      and b: "reorder_list mid = Some l"
      and c: "mset l = mset (get_ideas (conn b_selected) ''pos'')"
    by auto
  from a [unfolded run_down] b
  have "l = [mk_idea 1 ''A'' 0, mk_idea 3 ''C'' 2, mk_idea 2 ''B'' 1]"
    by auto
  then have "map idea_id l = [1, 3, 2]" by (simp add: mk_idea_def)
  with a b c show ?thesis by simp
qed

subsection \<open>Inserting\<close>

text \<open>
  Claim C2. For every table and every insert, \<^verbatim>\<open>add_idea\<close> appends one row and leaves the
  others as they are; the position of the new row is one more than the largest position
  in the table, or 0 when the table is empty; its date is today's, its archived flag 0,
  its title and notes the ones given.
\<close>

theorem add_idea_position:
  "rows (add_idea c t n d) =
     rows c @ [\<lparr>idea_id = next_id c, title = t,
                pos = (if rows c = [] then 0 else Max (pos ` set (rows c)) + 1),
                created_date = d, notes_text = n, archived = 0\<rparr>]"
  by (simp add: add_idea_def select_max_pos_Max Let_def)

text \<open>The scenario of the specification: "Buy milk" added to an empty table.\<close>

theorem add_idea_position_witness:
  "rows (add_idea \<lparr>rows = [], seq = 0\<rparr> (str_of ''Buy milk'') (str_of ''2% preferably'')
          (str_of ''2026-11-04'')) =
     [\<lparr>idea_id = 1, title = str_of ''Buy milk'', pos = 0,
       created_date = str_of ''2026-11-04'', notes_text = str_of ''2% preferably'',
       archived = 0\<rparr>]"
  using add_idea_position [of "\<lparr>rows = [], seq = 0\<rparr>" "str_of ''Buy milk''"
      "str_of ''2% preferably''" "str_of ''2026-11-04''"]
  by (simp add: next_id_def)

subsection \<open>Deleting\<close>

text \<open>
  Claim C5. Deleting an id that is present removes that id and nothing else: the ids left
  are the old ones without it, every row with another id is still there unchanged (its
  position included), no row is new, the table is shorter (by exactly one row when ids are
  unique), and a scan in either order is the old scan without the deleted row, so the
  gap that is left does not disturb the order.
\<close>

theorem delete_idea_frame:
  assumes "i \<in> idea_id ` set (rows c)"
  shows "idea_id ` set (rows (delete_idea c i)) = idea_id ` set (rows c) - {i}
       \<and> (\<forall>r \<in> set (rows c). idea_id r \<noteq> i \<longrightarrow> r \<in> set (rows (delete_idea c i)))
       \<and> set (rows (delete_idea c i)) \<subseteq> set (rows c)
       \<and> length (rows (delete_idea c i)) < length (rows c)
       \<and> (distinct (map idea_id (rows c)) \<longrightarrow>
            length (rows (delete_idea c i)) + 1 = length (rows c))
       \<and> (\<forall>order_by. get_ideas (delete_idea c i) order_by =
                       filter (\<lambda>r. idea_id r \<noteq> i) (get_ideas c order_by))
       \<and> seq (delete_idea c i) = seq c"
proof -
  have a: "idea_id ` set (rows (delete_idea c i)) = idea_id ` set (rows c) - {i}"
    by (auto simp: delete_idea_def)
  have b: "\<forall>r \<in> set (rows c). idea_id r \<noteq> i \<longrightarrow> r \<in> set (rows (delete_idea c i))"
    by (simp add: delete_idea_def)
  have c: "set (rows (delete_idea c i)) \<subseteq> set (rows c)"
    by (auto simp: delete_idea_def)
  obtain r where r: "r \<in> set (rows c)" "idea_id r = i"
    using assms by auto
  have d: "length (rows (delete_idea c i)) < length (rows c)"
    using r by (auto simp: delete_idea_def intro!: length_filter_less)
  have e: "length (rows (delete_idea c i)) + 1 = length (rows c)"
    if "distinct (map idea_id (rows c))"
    using that assms by (simp add: delete_idea_def length_filter_one_id)
  have f: "\<forall>order_by. get_ideas (delete_idea c i) order_by =
                       filter (\<lambda>r. idea_id r \<noteq> i) (get_ideas c order_by)"
    by (simp add: delete_idea_def get_ideas_filter)
  have g: "seq (delete_idea c i) = seq c" by (simp add: delete_idea_def)
  from a b c d e f g show ?thesis by blast
qed

text \<open>Deleting B from A, B, C leaves A at position 0 and C at position 2.\<close>

theorem delete_idea_frame_witness:
  "2 \<in> idea_id ` set (rows abc_db)
   \<and> idea_id ` set (rows (delete_idea abc_db 2)) = {1, 3}
   \<and> get_ideas (delete_idea abc_db 2) ''pos'' = [mk_idea 1 ''A'' 0, mk_idea 3 ''C'' 2]"
proof -
  have h: "2 \<in> idea_id ` set (rows abc_db)"
    by (simp add: abc_db_def mk_idea_def)
  have s: "get_ideas abc_db ''pos'' = [mk_idea 1 ''A'' 0, mk_idea 2 ''B'' 1, mk_idea 3 ''C'' 2]"
    by (simp add: get_ideas_def abc_db_def mk_idea_def)
  have i: "idea_id ` set (rows abc_db) - {2} = {1, 3}"
    by (auto simp: abc_db_def mk_idea_def)
  from delete_idea_frame [OF h] h s i show ?thesis
    by (simp add: mk_idea_def)
qed

subsection \<open>Rejected keys\<close>

lemma clamp_view_idem:
  "1 \<le> v \<Longrightarrow> clamp_view (clamp_view st n v) n v = clamp_view st n v"
  by (simp add: clamp_view_def Let_def)

lemma handle_key_space: "key e = ord CHR '' '' \<Longrightarrow> handle_key st ideas n v e = on_key_space st"
  by (simp add: handle_key_def ord_def)

text \<open>
  Claim C4. Under any order but the manual one the space key is rejected: the handler
  asks for a flash and returns the state it was given, whatever it is. For an idle state
  the loop can reach, in a window of at least four lines, the whole iteration therefore ends in the state it displayed (the state with selection
  and scroll clamped as the loop does before drawing) with the flash; that displayed state
  is left exactly as it is by the key, and the table, the order and the mode are those of
  the state before.
\<close>

theorem enter_move_rejected_by_date:
  assumes ord: "current_order st \<noteq> ''pos''" and idle: "moving_idea_index st = None"
    and k: "key e = ord CHR '' ''" and vis: "1 \<le> (max_y e - 2) div 2"
    and sc: "0 \<le> scroll_offset st"
  shows "handle_key st ideas n v e = Next st True
    \<and> (let shown = clamp_view st (int (length (get_ideas (conn st) (current_order st))))
                      ((max_y e - 2) div 2)
       in main_iter st e = Next shown True \<and> main_iter shown e = Next shown True
        \<and> conn shown = conn st \<and> current_order shown = current_order st
        \<and> moving_idea_index shown = None \<and> reorder_list shown = reorder_list st)"
proof -
  let ?ideas = "get_ideas (conn st) (current_order st)"
  let ?v = "(max_y e - 2) div 2"
  let ?shown = "clamp_view st (int (length ?ideas)) ?v"
  have h: "handle_key s ideas' n' v' e = Next s True" if "current_order s \<noteq> ''pos''"
    for s ideas' n' v'
    using that k by (simp add: handle_key_space on_key_space_def)
  have sh: "shown_ideas st = Some ?ideas" using idle by (simp add: shown_ideas_def)
  have sh': "shown_ideas ?shown = Some ?ideas" using idle by (simp add: shown_ideas_def)
  have a: "main_iter st e = Next ?shown True"
    using vis sh ord sc by (simp add: main_iter_visible h)
  have "main_iter ?shown e = handle_key (clamp_view ?shown (int (length ?ideas)) ?v) ?ideas
      (int (length ?ideas)) ?v e"
    using vis clamp_view_scroll [OF sc] sh' by (rule main_iter_visible)
  then have b: "main_iter ?shown e = Next ?shown True"
    using vis ord by (simp add: clamp_view_idem h)
  from h [OF ord] a b idle show ?thesis by (simp add: Let_def)
qed

theorem enter_move_rejected_by_date_witness:
  "main_iter by_date (key_event 32) = Next by_date True"
proof -
  have ord: "current_order by_date \<noteq> ''pos''" and idle: "moving_idea_index by_date = None"
    and sc: "0 \<le> scroll_offset by_date"
    by (simp_all add: by_date_def init_ui_def)
  have k: "key (key_event 32) = ord CHR '' ''" and vis: "1 \<le> (max_y (key_event 32) - 2) div 2"
    by (simp_all add: key_event_def ord_def)
  have "clamp_view by_date (int (length (get_ideas (conn by_date) (current_order by_date))))
          ((max_y (key_event 32) - 2) div 2) = by_date"
    by (simp add: clamp_view_def by_date_def init_ui_def abc_db_def get_ideas_def key_event_def
        mk_idea_def str_of_def)
  with enter_move_rejected_by_date [OF ord idle k vis sc] show ?thesis
    by (simp add: Let_def)
qed

text \<open>
  Claim C10. When the list shown is empty, the delete keys, d and e do nothing: each
  handler returns the state unchanged without reading the list, and the iteration (from a
  state the loop can reach) ends normally, with no exception, with the table, the order
  and the mode untouched.
\<close>

theorem empty_list_keys_noop:
  assumes empty: "shown_ideas st = Some []" and sc: "0 \<le> scroll_offset st"
    and k: "key e = KEY_DC \<or> key e = KEY_BACKSPACE \<or> key e = 127
          \<or> key e = ord CHR ''d'' \<or> key e = ord CHR ''e''"
  shows "on_key_delete st [] 0 = Next st False \<and> on_key_d st [] 0 = Next st False
    \<and> on_key_e st [] 0 e = Next st False
    \<and> main_iter st e =
        Next (if 1 \<le> (max_y e - 2) div 2 then clamp_view st 0 ((max_y e - 2) div 2) else st) False
    \<and> (\<exists>st'. main_iter st e = Next st' False \<and> conn st' = conn st
          \<and> current_order st' = current_order st
          \<and> moving_idea_index st' = moving_idea_index st \<and> reorder_list st' = reorder_list st)"
proof -
  let ?v = "(max_y e - 2) div 2"
  have a: "on_key_delete s [] 0 = Next s False" "on_key_d s [] 0 = Next s False"
    "on_key_e s [] 0 e = Next s False" for s
    by (simp_all add: on_key_delete_def on_key_d_def on_key_e_def)
  have hk: "handle_key s [] 0 ?v e = Next s False" for s
    using k a [of s] by (cases "moving_idea_index s") (auto simp: handle_key_def ord_def)
  have nq: "key e \<noteq> ord CHR ''q''" using k by (auto simp: ord_def)
  have b: "main_iter st e = Next (if 1 \<le> ?v then clamp_view st 0 ?v else st) False"
  proof (cases "1 \<le> ?v")
    case True
    then show ?thesis using main_iter_visible [OF True sc empty] hk by simp
  next
    case False
    then show ?thesis using nq by (simp add: main_iter_small)
  qed
  from a [of st] b show ?thesis by simp
qed

theorem empty_list_keys_noop_witness:
  "main_iter (init_ui \<lparr>rows = [], seq = 0\<rparr>) (key_event KEY_DC) =
     Next (init_ui \<lparr>rows = [], seq = 0\<rparr>) False
   \<and> main_iter (init_ui \<lparr>rows = [], seq = 0\<rparr>) (key_event (ord CHR ''d'')) =
     Next (init_ui \<lparr>rows = [], seq = 0\<rparr>) False
   \<and> main_iter (init_ui \<lparr>rows = [], seq = 0\<rparr>) (key_event (ord CHR ''e'')) =
     Next (init_ui \<lparr>rows = [], seq = 0\<rparr>) False"
proof -
  let ?st = "init_ui \<lparr>rows = [], seq = 0\<rparr>"
  have empty: "shown_ideas ?st = Some []" and sc: "0 \<le> scroll_offset ?st"
    by (simp_all add: shown_ideas_def init_ui_def get_ideas_def)
  have cl: "clamp_view ?st 0 11 = ?st"
    by (simp add: clamp_view_def init_ui_def)
  have "main_iter ?st (key_event k) = Next ?st False"
    if "k = KEY_DC \<or> k = KEY_BACKSPACE \<or> k = 127 \<or> k = ord CHR ''d'' \<or> k = ord CHR ''e''"
    for k
    using empty_list_keys_noop [OF empty sc, of "key_event k"] that cl
    by (simp add: key_event_def)
  then show ?thesis by simp
qed

subsection \<open>The dialog\<close>

lemma all_dropWhile_iff: "(\<forall>x \<in> set (dropWhile P s). P x) \<longleftrightarrow> (\<forall>c \<in> set s. P c)"
  by (induction s) auto

lemma split_at_end: "xs = rev (dropWhile P (rev xs)) @ rev (takeWhile P (rev xs))"
proof -
  have "rev (takeWhile P (rev xs) @ dropWhile P (rev xs)) =
      rev (dropWhile P (rev xs)) @ rev (takeWhile P (rev xs))"
    by (rule rev_append)
  moreover have "takeWhile P (rev xs) @ dropWhile P (rev xs) = rev xs"
    by (rule takeWhile_dropWhile_id)
  ultimately have "rev (rev xs) = rev (dropWhile P (rev xs)) @ rev (takeWhile P (rev xs))"
    by (simp only:)
  then show ?thesis by (simp only: rev_rev_ident)
qed

lemma strip_empty_iff: "strip s = [] \<longleftrightarrow> (\<forall>c \<in> set s. py_isspace c)"
  by (simp add: strip_def all_dropWhile_iff)

lemma strip_middle:
  "dropWhile py_isspace s =
     strip s @ rev (takeWhile py_isspace (rev (dropWhile py_isspace s)))"
  unfolding strip_def by (rule split_at_end)

lemma strip_decomp:
  "\<exists>a b. s = a @ strip s @ b \<and> (\<forall>c \<in> set a. py_isspace c) \<and> (\<forall>c \<in> set b. py_isspace c)"
proof -
  let ?a = "takeWhile py_isspace s"
  let ?b = "rev (takeWhile py_isspace (rev (dropWhile py_isspace s)))"
  have "s = ?a @ dropWhile py_isspace s" by simp
  then have "s = ?a @ strip s @ ?b" using strip_middle [of s] by simp
  moreover have "\<forall>c \<in> set ?a. py_isspace c" by (auto dest: set_takeWhileD)
  moreover have "\<forall>c \<in> set ?b. py_isspace c" by (auto dest: set_takeWhileD)
  ultimately show ?thesis by blast
qed

lemma strip_ends:
  assumes "strip s \<noteq> []"
  shows "\<not> py_isspace (hd (strip s))" "\<not> py_isspace (last (strip s))"
proof -
  let ?m = "dropWhile py_isspace s"
  let ?d = "dropWhile py_isspace (rev ?m)"
  have d: "?d \<noteq> []" using assms unfolding strip_def by (simp only: rev_is_Nil_conv not_False_eq_True)
  then have "\<not> py_isspace (hd ?d)" by (rule hd_dropWhile)
  moreover have "last (strip s) = hd ?d" unfolding strip_def using d by (simp only: last_rev)
  ultimately show "\<not> py_isspace (last (strip s))" by simp
  have m: "?m \<noteq> []" using d by (metis dropWhile.simps(1) rev.simps(1))
  then have nm: "\<not> py_isspace (hd ?m)" by (rule hd_dropWhile)
  have "hd ?m = hd (strip s)" using strip_middle [of s] assms by (metis hd_append2)
  then show "\<not> py_isspace (hd (strip s))" using nm by simp
qed

lemma get_line_loop_esc:
  "\<forall>ch \<in> set pre. ch \<noteq> 27 \<and> ch \<noteq> KEY_ENTER \<and> ch \<noteq> 10 \<and> 0 \<le> ch \<and> ch < 0x110000 \<Longrightarrow>
   get_line_loop (pre @ 27 # rest) n s = Returns None"
  by (induction pre arbitrary: s) (simp_all add: ord_def)

lemma confirm_prompt_decline:
  "\<forall>c \<in> set pre. c \<noteq> ord CHR ''y'' \<and> c \<noteq> ord CHR ''Y'' \<and> c \<noteq> ord CHR ''n''
      \<and> c \<noteq> ord CHR ''N'' \<and> c \<noteq> 27 \<Longrightarrow>
   k = ord CHR ''n'' \<or> k = ord CHR ''N'' \<or> k = 27 \<Longrightarrow>
   confirm_prompt (pre @ k # rest) = Returns False"
  by (induction pre) (auto simp: ord_def)

lemma confirm_prompt_accept:
  "\<forall>c \<in> set pre. c \<noteq> ord CHR ''y'' \<and> c \<noteq> ord CHR ''Y'' \<and> c \<noteq> ord CHR ''n''
      \<and> c \<noteq> ord CHR ''N'' \<and> c \<noteq> 27 \<Longrightarrow>
   k = ord CHR ''y'' \<or> k = ord CHR ''Y'' \<Longrightarrow>
   confirm_prompt (pre @ k # rest) = Returns True"
  by (induction pre) (auto simp: ord_def)

lemma newwin_fails_iff:
  "((sh - 18) div 2 < 0 \<or> (sw - 70) div 2 < 0) \<longleftrightarrow> (sh < (18::int) \<or> sw < (70::int))"
  by (simp add: pos_imp_zdiv_neg_iff)

lemma dialog_too_small:
  assumes "sh < 18 \<or> sw < 70"
  shows "dialog_template_idea sh sw it inn tk ne ck = Raises CursesError"
  using assms by (simp add: dialog_template_idea_def Let_def newwin_fails_iff)

lemma dialog_cancelled:
  assumes "18 \<le> sh" "70 \<le> sw"
    and "get_line_with_esc tk 66 = Returns None
         \<or> (\<exists>typed. get_line_with_esc tk 66 = Returns (Some typed)
              \<and> (ne = None \<or> confirm_prompt ck = Returns False))"
  shows "dialog_template_idea sh sw it inn tk ne ck = Returns None"
  using assms
  by (auto simp: dialog_template_idea_def Let_def newwin_fails_iff split: option.splits)

lemma dialog_confirmed:
  assumes "18 \<le> sh" "70 \<le> sw"
    and "get_line_with_esc tk 66 = Returns (Some typed)" "ne = Some text"
    "confirm_prompt ck = Returns True"
  shows "dialog_template_idea sh sw it inn tk ne ck =
     Returns (Some (if strip typed = [] then it else typed, strip text))"
  using assms by (simp add: dialog_template_idea_def Let_def newwin_fails_iff)

lemma dialog_Some_confirmed:
  assumes "dialog_template_idea sh sw it inn tk ne ck = Returns (Some p)"
  shows "18 \<le> sh \<and> 70 \<le> sw
      \<and> (\<exists>typed text. get_line_with_esc tk 66 = Returns (Some typed) \<and> ne = Some text
            \<and> confirm_prompt ck = Returns True)"
proof -
  have fit: "\<not> (sh < 18 \<or> sw < 70)"
    using assms dialog_too_small [of sh sw it inn tk ne ck] by auto
  then have "\<exists>typed text. get_line_with_esc tk 66 = Returns (Some typed) \<and> ne = Some text
            \<and> confirm_prompt ck = Returns True"
    using assms
    by (auto simp: dialog_template_idea_def Let_def newwin_fails_iff
        split: io.splits option.splits bool.splits)
  then show ?thesis using fit by auto
qed

lemma clamped_selection_index:
  assumes "ideas \<noteq> []"
  shows "py_get ideas (current_selection (clamp_view st (int (length ideas)) v)) =
      Inr (ideas ! nat (current_selection (clamp_view st (int (length ideas)) v)))"
    and "ideas ! nat (current_selection (clamp_view st (int (length ideas)) v)) \<in> set ideas"
proof -
  let ?i = "current_selection (clamp_view st (int (length ideas)) v)"
  have "1 \<le> int (length ideas)" using assms by (cases ideas) simp_all
  then have r: "0 \<le> ?i" "?i < int (length ideas)"
    using clamp_view_selection_range [of st "int (length ideas)" v] by auto
  then show "py_get ideas ?i = Inr (ideas ! nat ?i)" by (rule py_get_in_range)
  from r have "nat ?i < length ideas" by simp
  then show "ideas ! nat ?i \<in> set ideas" by (rule nth_mem)
qed

lemma main_iter_idle:
  assumes "moving_idea_index st = None" "1 \<le> (max_y e - 2) div 2" "0 \<le> scroll_offset st"
  shows "main_iter st e =
     handle_key (clamp_view st (int (length (get_ideas (conn st) (current_order st))))
                   ((max_y e - 2) div 2))
       (get_ideas (conn st) (current_order st))
       (int (length (get_ideas (conn st) (current_order st)))) ((max_y e - 2) div 2) e"
  using assms by (simp add: main_iter_visible shown_ideas_def)

lemma handle_key_a:
  "moving_idea_index st = None \<Longrightarrow> key e = ord CHR ''a'' \<Longrightarrow>
   handle_key st ideas n v e = on_key_a st v e"
  by (simp add: handle_key_def ord_def)

lemma handle_key_e:
  "moving_idea_index st = None \<Longrightarrow> key e = ord CHR ''e'' \<Longrightarrow>
   handle_key st ideas n v e = on_key_e st ideas n e"
  by (simp add: handle_key_def ord_def)

lemma one_row_per_id:
  assumes "distinct (map idea_id rs)" "x \<in> set rs"
  shows "map (\<lambda>r. if idea_id r = idea_id x then f r else r) rs =
         map (\<lambda>r. if r = x then f x else r) rs"
proof (rule map_cong [OF refl])
  fix r assume "r \<in> set rs"
  then have "idea_id r = idea_id x \<longleftrightarrow> r = x"
    using assms by (auto simp: distinct_map dest: inj_onD)
  then show "(if idea_id r = idea_id x then f r else r) = (if r = x then f x else r)"
    by auto
qed

text \<open>
  Claim C7. The terminal has at least 18 lines and 70 columns, so that the dialog opens.
  In the edit dialog, when the title typed is empty or all whitespace, the notes box
  returns \<open>text\<close> and the prompt is answered with y, the dialog returns the title it was
  opened with and the notes stripped. Pressing e on a non-empty list in an idle state the
  loop can reach then rewrites the selected row \<open>x\<close> and no other (ids are unique): its
  title stays, its notes become the stripped text. Stripping removes whitespace at both
  ends and nothing else.
\<close>

theorem edit_empty_title_keeps_old:
  assumes pk: "distinct (map idea_id (rows (conn st)))"
    and idle: "moving_idea_index st = None" and sc: "0 \<le> scroll_offset st"
    and k: "key e = ord CHR ''e''" and tall: "18 \<le> max_y e" and wide: "70 \<le> max_x e"
    and nonempty: "rows (conn st) \<noteq> []"
    and typed: "get_line_with_esc (title_keys e) 66 = Returns (Some typed)"
    and blank: "\<forall>c \<in> set typed. py_isspace c"
    and edited: "notes_edit e = Some text"
    and yes: "confirm_prompt (confirm_keys e) = Returns True"
  shows "dialog_template_idea (max_y e) (max_x e) init_title init_notes (title_keys e)
            (notes_edit e) (confirm_keys e)
           = Returns (Some (init_title, strip text))
    \<and> (\<exists>x st'. main_iter st e = Next st' False
          \<and> x = get_ideas (conn st) (current_order st) ! nat (current_selection st')
          \<and> x \<in> set (rows (conn st))
          \<and> rows (conn st') =
              map (\<lambda>r. if r = x then x\<lparr>notes_text := strip text\<rparr> else r) (rows (conn st)))
    \<and> (\<exists>a b. text = a @ strip text @ b \<and> (\<forall>c \<in> set a. py_isspace c)
          \<and> (\<forall>c \<in> set b. py_isspace c))
    \<and> (strip text \<noteq> [] \<longrightarrow>
          \<not> py_isspace (hd (strip text)) \<and> \<not> py_isspace (last (strip text)))"
proof -
  let ?ideas = "get_ideas (conn st) (current_order st)"
  let ?v = "(max_y e - 2) div 2"
  let ?st1 = "clamp_view st (int (length ?ideas)) ?v"
  let ?x = "?ideas ! nat (current_selection ?st1)"
  have vis: "1 \<le> ?v" using tall by simp
  have se: "strip typed = []" using blank by (simp add: strip_empty_iff)
  have dlg: "dialog_template_idea (max_y e) (max_x e) it inn (title_keys e) (notes_edit e)
            (confirm_keys e)
           = Returns (Some (it, strip text))" for it inn
    using dialog_confirmed [OF tall wide typed edited yes, of it inn] se by simp
  have set_ideas: "set ?ideas = set (rows (conn st))" by (simp add: get_ideas_def)
  then have ne: "?ideas \<noteq> []" using nonempty by (metis set_empty)
  note sel = clamped_selection_index [OF ne, of st ?v]
  have x: "?x \<in> set (rows (conn st))" using sel(2) set_ideas by simp
  let ?c' = "update_idea_info (conn st) (idea_id ?x) (title ?x) (strip text)"
  let ?st' = "?st1\<lparr>conn := ?c'\<rparr>"
  have "main_iter st e = on_key_e ?st1 ?ideas (int (length ?ideas)) e"
    using main_iter_idle [OF idle vis sc] idle k by (simp add: handle_key_e)
  also have "\<dots> = Next ?st' False"
    using ne sel(1) by (simp add: on_key_e_def edit_idea_dialog_def dlg)
  finally have it: "main_iter st e = Next ?st' False" .
  have "rows ?c' = map (\<lambda>r. if idea_id r = idea_id ?x
                             then r\<lparr>title := title ?x, notes_text := strip text\<rparr> else r)
                     (rows (conn st))"
    by (simp add: update_idea_info_def)
  also have "\<dots> = map (\<lambda>r. if r = ?x then ?x\<lparr>title := title ?x, notes_text := strip text\<rparr>
                              else r) (rows (conn st))"
    using pk x by (rule one_row_per_id)
  finally have rows': "rows (conn ?st') =
      map (\<lambda>r. if r = ?x then ?x\<lparr>notes_text := strip text\<rparr> else r) (rows (conn st))"
    by simp
  have "\<exists>x st'. main_iter st e = Next st' False
          \<and> x = get_ideas (conn st) (current_order st) ! nat (current_selection st')
          \<and> x \<in> set (rows (conn st))
          \<and> rows (conn st') =
              map (\<lambda>r. if r = x then x\<lparr>notes_text := strip text\<rparr> else r) (rows (conn st))"
    using it x rows' by (intro exI [of _ ?x] exI [of _ ?st']) simp
  then show ?thesis using dlg strip_decomp [of "text"] strip_ends [of "text"] by blast
qed

theorem edit_empty_title_keeps_old_witness:
  "\<exists>st'. main_iter (init_ui old_db) edit_event = Next st' False
     \<and> rows (conn st') = [\<lparr>idea_id = 1, title = str_of ''Old'', pos = 0,
                            created_date = str_of ''2024-01-01'',
                            notes_text = str_of ''trimmed'', archived = 0\<rparr>]"
proof -
  have pk: "distinct (map idea_id (rows (conn (init_ui old_db))))"
    and idle: "moving_idea_index (init_ui old_db) = None"
    and sc: "0 \<le> scroll_offset (init_ui old_db)"
    and nonempty: "rows (conn (init_ui old_db)) \<noteq> []"
    by (simp_all add: init_ui_def old_db_def)
  have k: "key edit_event = ord CHR ''e''"
    and tall: "18 \<le> max_y edit_event" and wide: "70 \<le> max_x edit_event"
    and typed: "get_line_with_esc (title_keys edit_event) 66 = Returns (Some [])"
    and blank: "\<forall>c \<in> set ([] :: pystr). py_isspace c"
    and edited: "notes_edit edit_event = Some (str_of ''  trimmed  '')"
    and yes: "confirm_prompt (confirm_keys edit_event) = Returns True"
    by (simp_all add: edit_event_def get_line_with_esc_def ord_def)
  have tr: "strip (str_of ''  trimmed  '') = str_of ''trimmed''"
    by (simp add: strip_def str_of_def py_isspace_def)
  from edit_empty_title_keeps_old [OF pk idle sc k tall wide nonempty typed blank edited yes]
  obtain x st' where a: "main_iter (init_ui old_db) edit_event = Next st' False"
    and b: "x \<in> set (rows (conn (init_ui old_db)))"
    and c: "rows (conn st') =
        map (\<lambda>r. if r = x then x\<lparr>notes_text := strip (str_of ''  trimmed  '')\<rparr> else r)
          (rows (conn (init_ui old_db)))"
    by blast
  from b have "x = \<lparr>idea_id = 1, title = str_of ''Old'', pos = 0,
                       created_date = str_of ''2024-01-01'', notes_text = str_of ''x'',
                       archived = 0\<rparr>"
    by (simp add: init_ui_def old_db_def)
  with c tr have "rows (conn st') = [\<lparr>idea_id = 1, title = str_of ''Old'', pos = 0,
                            created_date = str_of ''2024-01-01'',
                            notes_text = str_of ''trimmed'', archived = 0\<rparr>]"
    by (simp add: init_ui_def old_db_def)
  with a show ?thesis by blast
qed

subsection \<open>Cancelling the dialog\<close>

lemma on_key_a_touch:
  "on_key_a st v e = Next st' fl \<Longrightarrow> conn st' \<noteq> conn st \<Longrightarrow>
   \<exists>p. dialog_template_idea (max_y e) (max_x e) [] [] (title_keys e) (notes_edit e)
          (confirm_keys e) = Returns (Some p)"
  by (auto simp: on_key_a_def new_idea_dialog_def split: io.splits option.splits)

lemma on_key_e_touch:
  assumes "on_key_e st ideas n e = Next st' fl" "conn st' \<noteq> conn st"
  shows "\<exists>it inn p. dialog_template_idea (max_y e) (max_x e) it inn (title_keys e)
            (notes_edit e) (confirm_keys e) = Returns (Some p)"
proof (cases "py_get ideas (current_selection st)")
  case (Inl err)
  then show ?thesis using assms by (auto simp: on_key_e_def split: if_splits)
next
  case (Inr x)
  then have "\<exists>p. dialog_template_idea (max_y e) (max_x e) (title x) (notes_text x)
            (title_keys e) (notes_edit e) (confirm_keys e) = Returns (Some p)"
    using assms
    by (auto simp: on_key_e_def edit_idea_dialog_def split: io.splits option.splits if_splits)
  then show ?thesis by blast
qed

text \<open>
  Claim C8. In an idle state the loop can reach, for the a key and the e key. In a
  terminal of at least 18 lines and 70 columns, where the dialog opens: when the title
  entry is cancelled, or the notes box is cancelled, or the prompt is declined, the dialog
  returns the cancellation signal whatever it was opened with, and the iteration ends in
  the displayed state with the table untouched. Conversely, in any terminal, an iteration
  on these keys that leaves the table different ran in a terminal of at least that size
  and went through all three steps: a title was entered, the notes box returned a text and
  the prompt was answered with y. In a smaller terminal the dialog raises the error of
  curses before reading a key, and so do the a key, and the e key on a non-empty list,
  when the list is shown at all. ESC after any keys that do not end the title entry
  cancels it; n, N or ESC after any keys the prompt ignores declines.
\<close>

theorem dialog_cancel_no_mutation:
  assumes idle: "moving_idea_index st = None" and sc: "0 \<le> scroll_offset st"
    and k: "key e = ord CHR ''a'' \<or> key e = ord CHR ''e''"
  shows "(18 \<le> max_y e \<and> 70 \<le> max_x e
          \<and> (get_line_with_esc (title_keys e) 66 = Returns None
              \<or> (\<exists>typed. get_line_with_esc (title_keys e) 66 = Returns (Some typed)
                    \<and> (notes_edit e = None
                        \<or> confirm_prompt (confirm_keys e) = Returns False)))
         \<longrightarrow> (\<forall>it inn. dialog_template_idea (max_y e) (max_x e) it inn (title_keys e)
                          (notes_edit e) (confirm_keys e) = Returns None)
           \<and> main_iter st e =
               Next (clamp_view st (int (length (get_ideas (conn st) (current_order st))))
                       ((max_y e - 2) div 2)) False
           \<and> (\<exists>st'. main_iter st e = Next st' False \<and> conn st' = conn st))
    \<and> (\<forall>st' fl. main_iter st e = Next st' fl \<and> conn st' \<noteq> conn st \<longrightarrow>
          18 \<le> max_y e \<and> 70 \<le> max_x e
          \<and> (\<exists>typed edited. get_line_with_esc (title_keys e) 66 = Returns (Some typed)
                \<and> notes_edit e = Some edited
                \<and> confirm_prompt (confirm_keys e) = Returns True))
    \<and> (max_y e < 18 \<or> max_x e < 70 \<longrightarrow>
          (\<forall>it inn. dialog_template_idea (max_y e) (max_x e) it inn (title_keys e)
                       (notes_edit e) (confirm_keys e) = Raises CursesError)
          \<and> (1 \<le> (max_y e - 2) div 2
               \<and> (key e = ord CHR ''a'' \<or> rows (conn st) \<noteq> [])
               \<longrightarrow> main_iter st e = Crash CursesError))
    \<and> (\<forall>pre rest n.
          (\<forall>ch \<in> set pre. ch \<noteq> 27 \<and> ch \<noteq> KEY_ENTER \<and> ch \<noteq> 10 \<and> 0 \<le> ch \<and> ch < 0x110000)
          \<longrightarrow> get_line_with_esc (pre @ 27 # rest) n = Returns None)
    \<and> (\<forall>pre c rest.
          (\<forall>c \<in> set pre. c \<noteq> ord CHR ''y'' \<and> c \<noteq> ord CHR ''Y'' \<and> c \<noteq> ord CHR ''n''
              \<and> c \<noteq> ord CHR ''N'' \<and> c \<noteq> 27)
          \<and> (c = ord CHR ''n'' \<or> c = ord CHR ''N'' \<or> c = 27)
          \<longrightarrow> confirm_prompt (pre @ c # rest) = Returns False)"
proof -
  let ?ideas = "get_ideas (conn st) (current_order st)"
  let ?v = "(max_y e - 2) div 2"
  let ?st1 = "clamp_view st (int (length ?ideas)) ?v"
  have nq: "key e \<noteq> ord CHR ''q''" using k by (auto simp: ord_def)
  have small: "main_iter st e = Next st False" if "\<not> 1 \<le> ?v"
    using that nq by (simp add: main_iter_small)
  have big: "main_iter st e =
      (if key e = ord CHR ''a'' then on_key_a ?st1 ?v e
       else on_key_e ?st1 ?ideas (int (length ?ideas)) e)" if "1 \<le> ?v"
    using main_iter_idle [OF idle that sc] k idle
    by (auto simp: handle_key_a handle_key_e)
  have set_ideas: "set ?ideas = set (rows (conn st))" by (simp add: get_ideas_def)
  have cancel: "(\<forall>it inn. dialog_template_idea (max_y e) (max_x e) it inn (title_keys e)
                          (notes_edit e) (confirm_keys e) = Returns None)
           \<and> main_iter st e = Next ?st1 False
           \<and> (\<exists>st'. main_iter st e = Next st' False \<and> conn st' = conn st)"
    if tall: "18 \<le> max_y e" and wide: "70 \<le> max_x e"
      and c: "get_line_with_esc (title_keys e) 66 = Returns None
          \<or> (\<exists>typed. get_line_with_esc (title_keys e) 66 = Returns (Some typed)
                \<and> (notes_edit e = None \<or> confirm_prompt (confirm_keys e) = Returns False))"
  proof -
    have d: "dialog_template_idea (max_y e) (max_x e) it inn (title_keys e) (notes_edit e)
        (confirm_keys e) = Returns None" for it inn
      using tall wide c by (rule dialog_cancelled)
    have vis: "1 \<le> ?v" using tall by simp
    have a: "on_key_a ?st1 ?v e = Next ?st1 False"
      by (simp add: on_key_a_def new_idea_dialog_def d)
    have b: "on_key_e ?st1 ?ideas (int (length ?ideas)) e = Next ?st1 False"
    proof (cases "?ideas = []")
      case True
      then show ?thesis by (simp add: on_key_e_def)
    next
      case False
      then show ?thesis
        using clamped_selection_index(1) [OF False, of st ?v]
        by (simp add: on_key_e_def edit_idea_dialog_def d)
    qed
    have m: "main_iter st e = Next ?st1 False" using big [OF vis] a b by simp
    then have "\<exists>st'. main_iter st e = Next st' False \<and> conn st' = conn st" by simp
    with d m show ?thesis by blast
  qed
  have touch: "18 \<le> max_y e \<and> 70 \<le> max_x e
          \<and> (\<exists>typed edited. get_line_with_esc (title_keys e) 66 = Returns (Some typed)
                \<and> notes_edit e = Some edited
                \<and> confirm_prompt (confirm_keys e) = Returns True)"
    if r: "main_iter st e = Next st' fl" and ne: "conn st' \<noteq> conn st" for st' fl
  proof -
    have v: "1 \<le> ?v" using r ne small by auto
    have ne1: "conn st' \<noteq> conn ?st1" using ne by simp
    have "\<exists>it inn p. dialog_template_idea (max_y e) (max_x e) it inn (title_keys e)
        (notes_edit e) (confirm_keys e) = Returns (Some p)"
    proof (cases "key e = ord CHR ''a''")
      case True
      then have "on_key_a ?st1 ?v e = Next st' fl" using big [OF v] r by simp
      from on_key_a_touch [OF this ne1] show ?thesis by blast
    next
      case False
      then have "on_key_e ?st1 ?ideas (int (length ?ideas)) e = Next st' fl"
        using big [OF v] r by simp
      from on_key_e_touch [OF this ne1] show ?thesis by blast
    qed
    then show ?thesis using dialog_Some_confirmed by blast
  qed
  have crash_dialog: "dialog_template_idea (max_y e) (max_x e) it inn (title_keys e)
        (notes_edit e) (confirm_keys e) = Raises CursesError"
    if "max_y e < 18 \<or> max_x e < 70" for it inn
    using that by (rule dialog_too_small)
  have crash_iter: "main_iter st e = Crash CursesError"
    if tiny: "max_y e < 18 \<or> max_x e < 70" and vis: "1 \<le> ?v"
      and shown: "key e = ord CHR ''a'' \<or> rows (conn st) \<noteq> []"
  proof (cases "key e = ord CHR ''a''")
    case True
    have "on_key_a ?st1 ?v e = Crash CursesError"
      by (simp add: on_key_a_def new_idea_dialog_def crash_dialog [OF tiny])
    then show ?thesis using big [OF vis] True by simp
  next
    case False
    then have "rows (conn st) \<noteq> []" using shown by simp
    then have ne: "?ideas \<noteq> []" using set_ideas by (metis set_empty)
    have "on_key_e ?st1 ?ideas (int (length ?ideas)) e = Crash CursesError"
      using ne clamped_selection_index(1) [OF ne, of st ?v]
      by (simp add: on_key_e_def edit_idea_dialog_def crash_dialog [OF tiny])
    then show ?thesis using big [OF vis] False by simp
  qed
  have esc: "get_line_with_esc (pre @ 27 # rest) n = Returns None"
    if "\<forall>ch \<in> set pre. ch \<noteq> 27 \<and> ch \<noteq> KEY_ENTER \<and> ch \<noteq> 10 \<and> 0 \<le> ch \<and> ch < 0x110000"
    for pre rest n
    using that unfolding get_line_with_esc_def by (rule get_line_loop_esc)
  have decl: "confirm_prompt (pre @ c # rest) = Returns False"
    if "(\<forall>c \<in> set pre. c \<noteq> ord CHR ''y'' \<and> c \<noteq> ord CHR ''Y'' \<and> c \<noteq> ord CHR ''n''
              \<and> c \<noteq> ord CHR ''N'' \<and> c \<noteq> 27)
          \<and> (c = ord CHR ''n'' \<or> c = ord CHR ''N'' \<or> c = 27)" for pre c rest
    using that confirm_prompt_decline [of pre c rest] by blast
  show ?thesis
  proof (intro conjI impI allI)
    assume c: "18 \<le> max_y e \<and> 70 \<le> max_x e
          \<and> (get_line_with_esc (title_keys e) 66 = Returns None
              \<or> (\<exists>typed. get_line_with_esc (title_keys e) 66 = Returns (Some typed)
                    \<and> (notes_edit e = None
                        \<or> confirm_prompt (confirm_keys e) = Returns False)))"
    then have c3: "18 \<le> max_y e" "70 \<le> max_x e"
      "get_line_with_esc (title_keys e) 66 = Returns None
          \<or> (\<exists>typed. get_line_with_esc (title_keys e) 66 = Returns (Some typed)
                \<and> (notes_edit e = None \<or> confirm_prompt (confirm_keys e) = Returns False))"
      by blast+
    show "dialog_template_idea (max_y e) (max_x e) it inn (title_keys e) (notes_edit e)
        (confirm_keys e) = Returns None" for it inn
      using cancel [OF c3] by blast
    show "main_iter st e = Next ?st1 False"
      using cancel [OF c3] by blast
    show "\<exists>st'. main_iter st e = Next st' False \<and> conn st' = conn st"
      using cancel [OF c3] by blast
  next
    fix st' fl
    assume a: "main_iter st e = Next st' fl \<and> conn st' \<noteq> conn st"
    show "18 \<le> max_y e" "70 \<le> max_x e"
      using a touch by blast+
    show "\<exists>typed edited. get_line_with_esc (title_keys e) 66 = Returns (Some typed)
             \<and> notes_edit e = Some edited
             \<and> confirm_prompt (confirm_keys e) = Returns True"
      using a touch by blast
  next
    fix it inn
    assume "max_y e < 18 \<or> max_x e < 70"
    then show "dialog_template_idea (max_y e) (max_x e) it inn (title_keys e) (notes_edit e)
        (confirm_keys e) = Raises CursesError"
      by (rule crash_dialog)
  next
    assume "max_y e < 18 \<or> max_x e < 70"
      and "1 \<le> ?v \<and> (key e = ord CHR ''a'' \<or> rows (conn st) \<noteq> [])"
    then show "main_iter st e = Crash CursesError"
      using crash_iter by blast
  next
    fix pre rest n
    assume "\<forall>ch \<in> set pre. ch \<noteq> 27 \<and> ch \<noteq> KEY_ENTER \<and> ch \<noteq> 10 \<and> 0 \<le> ch \<and> ch < 0x110000"
    then show "get_line_with_esc (pre @ 27 # rest) n = Returns None" by (rule esc)
  next
    fix pre c rest
    assume "(\<forall>c \<in> set pre. c \<noteq> ord CHR ''y'' \<and> c \<noteq> ord CHR ''Y'' \<and> c \<noteq> ord CHR ''n''
              \<and> c \<noteq> ord CHR ''N'' \<and> c \<noteq> 27)
          \<and> (c = ord CHR ''n'' \<or> c = ord CHR ''N'' \<or> c = 27)"
    then show "confirm_prompt (pre @ c # rest) = Returns False" by (rule decl)
  qed
qed

text \<open>
  The a key with h, i and ESC at the title leaves the state as it is in a terminal of 24
  by 80; in one of 10 lines the same key ends the program.
\<close>

theorem dialog_cancel_no_mutation_witness:
  "main_iter (init_ui abc_db) cancel_event = Next (init_ui abc_db) False
   \<and> main_iter (init_ui abc_db) (cancel_event\<lparr>max_y := 10\<rparr>) = Crash CursesError"
proof -
  have idle: "moving_idea_index (init_ui abc_db) = None"
    and sc: "0 \<le> scroll_offset (init_ui abc_db)"
    by (simp_all add: init_ui_def)
  have k: "key cancel_event = ord CHR ''a'' \<or> key cancel_event = ord CHR ''e''"
    by (simp add: cancel_event_def)
  have k': "key (cancel_event\<lparr>max_y := 10\<rparr>) = ord CHR ''a''
      \<or> key (cancel_event\<lparr>max_y := 10\<rparr>) = ord CHR ''e''"
    by (simp add: cancel_event_def)
  have fits: "18 \<le> max_y cancel_event" "70 \<le> max_x cancel_event"
    by (simp_all add: cancel_event_def)
  have esc: "get_line_with_esc (title_keys cancel_event) 66 = Returns None"
    by (simp add: cancel_event_def get_line_with_esc_def ord_def)
  have cl: "clamp_view (init_ui abc_db)
       (int (length (get_ideas (conn (init_ui abc_db)) (current_order (init_ui abc_db)))))
       ((max_y cancel_event - 2) div 2) = init_ui abc_db"
    by (simp add: clamp_view_def init_ui_def abc_db_def get_ideas_def cancel_event_def)
  from dialog_cancel_no_mutation [OF idle sc k] fits esc
  have "main_iter (init_ui abc_db) cancel_event =
     Next (clamp_view (init_ui abc_db)
             (int (length (get_ideas (conn (init_ui abc_db)) (current_order (init_ui abc_db)))))
             ((max_y cancel_event - 2) div 2)) False"
    by blast
  then have a: "main_iter (init_ui abc_db) cancel_event = Next (init_ui abc_db) False"
    using cl by simp
  have tiny: "max_y (cancel_event\<lparr>max_y := 10\<rparr>) < 18 \<or> max_x (cancel_event\<lparr>max_y := 10\<rparr>) < 70"
    and vis: "1 \<le> (max_y (cancel_event\<lparr>max_y := 10\<rparr>) - 2) div 2"
    and ka: "key (cancel_event\<lparr>max_y := 10\<rparr>) = ord CHR ''a''"
    by (simp_all add: cancel_event_def)
  from dialog_cancel_no_mutation [OF idle sc k'] tiny vis ka
  have b: "main_iter (init_ui abc_db) (cancel_event\<lparr>max_y := 10\<rparr>) = Crash CursesError"
    by blast
  from a b show ?thesis by simp
qed

subsection \<open>The archived flag\<close>

lemma insort_key_map_same_key:
  assumes "\<And>x. k (f x) = k x"
  shows "insort_key k (f x) (map f ys) = map f (insort_key k x ys)"
  using assms by (induction ys) simp_all

lemma sort_key_map_same_key:
  assumes "\<And>x. k (f x) = k x"
  shows "sort_key k (map f xs) = map f (sort_key k xs)"
  using assms by (induction xs) (simp_all add: insort_key_map_same_key)

lemma get_ideas_archived_update:
  "get_ideas (c\<lparr>rows := map (\<lambda>x. x\<lparr>archived := g x\<rparr>) (rows c)\<rparr>) order_by =
     map (\<lambda>x. x\<lparr>archived := g x\<rparr>) (get_ideas c order_by)"
  by (simp add: get_ideas_def sort_key_map_same_key)

lemma toggle_as_update:
  "toggle_idea_archived c i a =
     c\<lparr>rows := map (\<lambda>x. x\<lparr>archived := (if idea_id x = i then (if a \<noteq> 0 then 0 else 1)
                                          else archived x)\<rparr>) (rows c)\<rparr>"
proof -
  have "(if idea_id x = i then x\<lparr>archived := (if a \<noteq> 0 then 0 else 1)\<rparr> else x) =
        x\<lparr>archived := (if idea_id x = i then (if a \<noteq> 0 then 0 else 1) else archived x)\<rparr>"
    for x :: idea
    by simp
  then show ?thesis by (simp add: toggle_idea_archived_def)
qed

lemma get_ideas_toggle:
  "get_ideas (toggle_idea_archived c i a) order_by =
     map (\<lambda>x. x\<lparr>archived := (if idea_id x = i then (if a \<noteq> 0 then 0 else 1)
                                  else archived x)\<rparr>) (get_ideas c order_by)"
  unfolding toggle_as_update by (rule get_ideas_archived_update)

lemma toggle_row:
  assumes pk: "distinct (map idea_id (rows c))" and r: "r \<in> set (rows c)"
    and flag: "archived r = 0 \<or> archived r = 1"
  shows "rows (toggle_idea_archived c (idea_id r) (archived r)) =
           map (\<lambda>x. if x = r then r\<lparr>archived := 1 - archived r\<rparr> else x) (rows c)"
proof -
  have n: "(if archived r \<noteq> 0 then 0 else 1) = 1 - archived r" using flag by auto
  have "rows (toggle_idea_archived c (idea_id r) (archived r)) =
      map (\<lambda>x. if idea_id x = idea_id r then x\<lparr>archived := 1 - archived r\<rparr> else x) (rows c)"
    by (simp add: toggle_idea_archived_def n)
  also have "\<dots> = map (\<lambda>x. if x = r then r\<lparr>archived := 1 - archived r\<rparr> else x) (rows c)"
    using pk r by (rule one_row_per_id)
  finally show ?thesis .
qed

lemma toggle_twice:
  assumes flag: "a = 0 \<or> a = 1"
  shows "toggle_idea_archived (toggle_idea_archived c i a) i (1 - a) =
     c\<lparr>rows := map (\<lambda>x. if idea_id x = i then x\<lparr>archived := a\<rparr> else x) (rows c)\<rparr>"
proof -
  have step: "(if idea_id (if idea_id x = i then x\<lparr>archived := b\<rparr> else x) = i
         then (if idea_id x = i then x\<lparr>archived := b\<rparr> else x)\<lparr>archived := a\<rparr>
         else (if idea_id x = i then x\<lparr>archived := b\<rparr> else x)) =
        (if idea_id x = i then x\<lparr>archived := a\<rparr> else x)" for x :: idea and b
    by simp
  from flag show ?thesis
  proof
    assume "a = 0"
    then show ?thesis using step [of _ 1] by (simp add: toggle_idea_archived_def comp_def)
  next
    assume "a = 1"
    then show ?thesis using step [of _ 0] by (simp add: toggle_idea_archived_def comp_def)
  qed
qed

lemma toggle_twice_restores:
  assumes pk: "distinct (map idea_id (rows c))" and r: "r \<in> set (rows c)"
    and flag: "archived r = 0 \<or> archived r = 1"
  shows "toggle_idea_archived (toggle_idea_archived c (idea_id r) (archived r)) (idea_id r)
           (1 - archived r) = c"
proof -
  have "map (\<lambda>x. if idea_id x = idea_id r then x\<lparr>archived := archived r\<rparr> else x) (rows c) =
        map (\<lambda>x. if x = r then r\<lparr>archived := archived r\<rparr> else x) (rows c)"
    using pk r by (rule one_row_per_id)
  also have "\<dots> = rows c" by (intro map_idI) simp
  finally show ?thesis using toggle_twice [OF flag, of c "idea_id r"] by simp
qed

lemma handle_key_d:
  "moving_idea_index st = None \<Longrightarrow> key e = ord CHR ''d'' \<Longrightarrow>
   handle_key st ideas n v e = on_key_d st ideas n"
  by (simp add: handle_key_def ord_def)

lemma on_key_d_step:
  "py_get ideas (current_selection s) = Inr y \<Longrightarrow> 0 < n \<Longrightarrow>
   on_key_d s ideas n =
     Next (s\<lparr>conn := toggle_idea_archived (conn s) (idea_id y) (archived y)\<rparr>) False"
  by (simp add: on_key_d_def)

lemma toggle_changes:
  assumes pk: "distinct (map idea_id (rows c))" and r: "r \<in> set (rows c)"
    and flag: "archived r = 0 \<or> archived r = 1"
  shows "toggle_idea_archived c (idea_id r) (archived r) \<noteq> c"
proof
  assume "toggle_idea_archived c (idea_id r) (archived r) = c"
  then have "rows (toggle_idea_archived c (idea_id r) (archived r)) = map (\<lambda>x. x) (rows c)"
    by simp
  then have "map (\<lambda>x. if x = r then r\<lparr>archived := 1 - archived r\<rparr> else x) (rows c)
      = map (\<lambda>x. x) (rows c)"
    using toggle_row [OF pk r flag] by simp
  then have "(if r = r then r\<lparr>archived := 1 - archived r\<rparr> else r) = r"
    using r by (simp only: map_eq_conv)
  then have "archived (r\<lparr>archived := 1 - archived r\<rparr>) = archived r" by simp
  then have "1 - archived r = archived r" by simp
  then show False by presburger
qed

lemma press_d_twice:
  assumes pk: "distinct (map idea_id (rows (conn st)))"
    and flags: "\<forall>x \<in> set (rows (conn st)). archived x = 0 \<or> archived x = 1"
    and idle: "moving_idea_index st = None" and sc: "0 \<le> scroll_offset st"
    and k1: "key e1 = ord CHR ''d''" and v1: "1 \<le> (max_y e1 - 2) div 2"
    and k2: "key e2 = ord CHR ''d''" and v2: "1 \<le> (max_y e2 - 2) div 2"
  shows "\<exists>mid fin. main_loop st [e1] = Waiting mid \<and> main_loop st [e1, e2] = Waiting fin
      \<and> conn fin = conn st \<and> (rows (conn st) \<noteq> [] \<longrightarrow> conn mid \<noteq> conn st)"
proof -
  let ?c = "conn st"
  let ?ideas = "get_ideas ?c (current_order st)"
  let ?n = "int (length ?ideas)"
  let ?st1 = "clamp_view st ?n ((max_y e1 - 2) div 2)"
  have set_ideas: "set ?ideas = set (rows ?c)" by (simp add: get_ideas_def)
  have it1: "main_iter st e1 = on_key_d ?st1 ?ideas ?n"
    using main_iter_idle [OF idle v1 sc] idle k1 by (simp add: handle_key_d)
  show ?thesis
  proof (cases "?ideas = []")
    case True
    then have e: "rows ?c = []" using set_ideas by (metis set_empty)
    have a: "main_iter st e1 = Next ?st1 False" using it1 True by (simp add: on_key_d_def)
    let ?st2 = "clamp_view ?st1 0 ((max_y e2 - 2) div 2)"
    have "main_iter ?st1 e2 = on_key_d ?st2 [] 0"
      using main_iter_idle [of ?st1 e2] idle v2 k2 True clamp_view_scroll [OF sc]
      by (simp add: handle_key_d)
    then have b: "main_iter ?st1 e2 = Next ?st2 False" by (simp add: on_key_d_def)
    show ?thesis using a b e by simp
  next
    case False
    let ?x = "?ideas ! nat (current_selection ?st1)"
    let ?a = "archived ?x"
    let ?mid = "?st1\<lparr>conn := toggle_idea_archived ?c (idea_id ?x) ?a\<rparr>"
    note sel = clamped_selection_index [OF False, of st "(max_y e1 - 2) div 2"]
    have x: "?x \<in> set (rows ?c)" using sel(2) set_ideas by simp
    then have flag: "?a = 0 \<or> ?a = 1" using flags by blast
    have a: "main_iter st e1 = Next ?mid False"
      using it1 False sel(1) by (simp add: on_key_d_def)
    let ?G = "\<lambda>y. y\<lparr>archived := (if idea_id y = idea_id ?x then (if ?a \<noteq> 0 then 0 else 1)
                                   else archived y)\<rparr>"
    let ?ideas2 = "get_ideas (conn ?mid) (current_order ?mid)"
    have i2: "?ideas2 = map ?G ?ideas" by (simp add: get_ideas_toggle)
    then have n2: "int (length ?ideas2) = ?n" by simp
    let ?st2 = "clamp_view ?mid ?n ((max_y e2 - 2) div 2)"
    have "1 \<le> ?n" using False by (cases ?ideas) simp_all
    then have rng: "0 \<le> current_selection ?st1" "current_selection ?st1 < ?n"
      using clamp_view_selection_range [of st ?n "(max_y e1 - 2) div 2"] by auto
    have s2: "current_selection ?st2 = current_selection ?st1"
      using rng by (simp add: clamp_view_selection)
    have g: "py_get ?ideas2 (current_selection ?st2) = Inr (?G ?x)"
    proof -
      have "py_get (map ?G ?ideas) (current_selection ?st1) =
          Inr (map ?G ?ideas ! nat (current_selection ?st1))"
        using rng by (intro py_get_in_range) simp_all
      moreover have "map ?G ?ideas ! nat (current_selection ?st1) = ?G ?x"
        using rng by (intro nth_map) simp
      ultimately show ?thesis by (simp only: s2 i2)
    qed
    have gx: "idea_id (?G ?x) = idea_id ?x" "archived (?G ?x) = 1 - ?a"
      using flag by auto
    have idle2: "moving_idea_index ?mid = None" using idle by simp
    have sc2: "0 \<le> scroll_offset ?mid" using clamp_view_scroll [OF sc] by simp
    have it2: "main_iter ?mid e2 = on_key_d ?st2 ?ideas2 ?n"
      using main_iter_idle [OF idle2 v2 sc2] idle2 k2 n2 by (simp add: handle_key_d)
    have pos_n: "0 < ?n" using False by simp
    have "on_key_d ?st2 ?ideas2 ?n =
        Next (?st2\<lparr>conn := toggle_idea_archived (conn ?st2) (idea_id (?G ?x))
                                    (archived (?G ?x))\<rparr>) False"
      using g pos_n by (rule on_key_d_step)
    then have b: "\<exists>fin. main_iter ?mid e2 = Next fin False
        \<and> conn fin = toggle_idea_archived (toggle_idea_archived ?c (idea_id ?x) ?a)
                         (idea_id ?x) (1 - ?a)"
      unfolding it2 gx by simp
    have restored: "toggle_idea_archived (toggle_idea_archived ?c (idea_id ?x) ?a)
                         (idea_id ?x) (1 - ?a) = ?c"
      using pk x flag by (rule toggle_twice_restores)
    have diff: "toggle_idea_archived ?c (idea_id ?x) ?a \<noteq> ?c"
      using pk x flag by (rule toggle_changes)
    from b restored obtain fin where "main_iter ?mid e2 = Next fin False" "conn fin = ?c"
      by auto
    then show ?thesis using a diff by simp
  qed
qed

lemma add_idea_pos_archived_update:
  "pos (last (rows (add_idea (c\<lparr>rows := map (\<lambda>x. x\<lparr>archived := g x\<rparr>) (rows c)\<rparr>) t n d))) =
   pos (last (rows (add_idea c t n d)))"
proof -
  have "pos ` set (map (\<lambda>x. x\<lparr>archived := g x\<rparr>) (rows c)) = pos ` set (rows c)"
    by (simp add: image_image)
  then show ?thesis
    by (simp add: add_idea_def select_max_pos_Max Let_def del: set_map)
qed

text \<open>
  Claim C6. Ids are unique and the archived column holds 0 or 1. Toggling a row with the
  flag it has flips that flag and changes nothing else in the table; toggling it again with
  the flag it has then gives the table back exactly. Through the loop: the d key pressed
  twice in an idle state the loop can reach leaves the table as it was, and pressed once it does change a
  non-empty table. The flags have no part in the order or the positions: rewriting the
  flags of a table in any way rewrites the flags of its scan, in either order, and leaves
  the scan otherwise as it is; a toggle keeps the ids and positions of every scan and the
  positions of every row; and the position given to a new row does not depend on the
  flags.
\<close>

theorem archived_toggle_twice:
  assumes pk: "distinct (map idea_id (rows c))"
    and flags: "\<forall>x \<in> set (rows c). archived x = 0 \<or> archived x = 1"
  shows "(\<forall>r \<in> set (rows c).
            rows (toggle_idea_archived c (idea_id r) (archived r)) =
              map (\<lambda>x. if x = r then r\<lparr>archived := 1 - archived r\<rparr> else x) (rows c)
          \<and> toggle_idea_archived (toggle_idea_archived c (idea_id r) (archived r))
                (idea_id r) (1 - archived r) = c)
    \<and> (\<forall>st e1 e2.
          conn st = c \<and> moving_idea_index st = None \<and> 0 \<le> scroll_offset st
          \<and> key e1 = ord CHR ''d'' \<and> 1 \<le> (max_y e1 - 2) div 2
          \<and> key e2 = ord CHR ''d'' \<and> 1 \<le> (max_y e2 - 2) div 2
          \<longrightarrow> (\<exists>mid fin. main_loop st [e1] = Waiting mid
                \<and> main_loop st [e1, e2] = Waiting fin
                \<and> conn fin = c \<and> (rows c \<noteq> [] \<longrightarrow> conn mid \<noteq> c)))
    \<and> (\<forall>g order_by.
          get_ideas (c\<lparr>rows := map (\<lambda>x. x\<lparr>archived := g x\<rparr>) (rows c)\<rparr>) order_by =
            map (\<lambda>x. x\<lparr>archived := g x\<rparr>) (get_ideas c order_by))
    \<and> (\<forall>i a order_by.
          map idea_id (get_ideas (toggle_idea_archived c i a) order_by) =
            map idea_id (get_ideas c order_by)
          \<and> map pos (get_ideas (toggle_idea_archived c i a) order_by) =
            map pos (get_ideas c order_by))
    \<and> (\<forall>i a. map pos (rows (toggle_idea_archived c i a)) = map pos (rows c))
    \<and> (\<forall>g t n d.
          pos (last (rows (add_idea (c\<lparr>rows := map (\<lambda>x. x\<lparr>archived := g x\<rparr>) (rows c)\<rparr>)
                             t n d))) =
          pos (last (rows (add_idea c t n d))))"
proof (intro conjI ballI allI impI)
  fix r assume r: "r \<in> set (rows c)"
  then have flag: "archived r = 0 \<or> archived r = 1" using flags by blast
  show "rows (toggle_idea_archived c (idea_id r) (archived r)) =
      map (\<lambda>x. if x = r then r\<lparr>archived := 1 - archived r\<rparr> else x) (rows c)"
    using pk r flag by (rule toggle_row)
  show "toggle_idea_archived (toggle_idea_archived c (idea_id r) (archived r))
      (idea_id r) (1 - archived r) = c"
    using pk r flag by (rule toggle_twice_restores)
next
  fix st :: ui and e1 e2 :: event
  assume h: "conn st = c \<and> moving_idea_index st = None \<and> 0 \<le> scroll_offset st
          \<and> key e1 = ord CHR ''d'' \<and> 1 \<le> (max_y e1 - 2) div 2
          \<and> key e2 = ord CHR ''d'' \<and> 1 \<le> (max_y e2 - 2) div 2"
  then have "distinct (map idea_id (rows (conn st)))"
    "\<forall>x \<in> set (rows (conn st)). archived x = 0 \<or> archived x = 1"
    using pk flags by simp_all
  from press_d_twice [OF this, of e1 e2] h
  show "\<exists>mid fin. main_loop st [e1] = Waiting mid \<and> main_loop st [e1, e2] = Waiting fin
                \<and> conn fin = c \<and> (rows c \<noteq> [] \<longrightarrow> conn mid \<noteq> c)"
    by simp
next
  fix g order_by
  show "get_ideas (c\<lparr>rows := map (\<lambda>x. x\<lparr>archived := g x\<rparr>) (rows c)\<rparr>) order_by =
            map (\<lambda>x. x\<lparr>archived := g x\<rparr>) (get_ideas c order_by)"
    by (rule get_ideas_archived_update)
next
  fix i a order_by
  show "map idea_id (get_ideas (toggle_idea_archived c i a) order_by) =
            map idea_id (get_ideas c order_by)"
    by (simp add: get_ideas_toggle comp_def)
  show "map pos (get_ideas (toggle_idea_archived c i a) order_by) =
            map pos (get_ideas c order_by)"
    by (simp add: get_ideas_toggle comp_def)
next
  fix i a
  show "map pos (rows (toggle_idea_archived c i a)) = map pos (rows c)"
    by (simp add: toggle_as_update comp_def)
next
  fix g t n d
  show "pos (last (rows (add_idea (c\<lparr>rows := map (\<lambda>x. x\<lparr>archived := g x\<rparr>) (rows c)\<rparr>)
                             t n d))) =
          pos (last (rows (add_idea c t n d)))"
    by (rule add_idea_pos_archived_update)
qed

text \<open>B of A, B, C archived and restored with the d key pressed twice.\<close>

theorem archived_toggle_twice_witness:
  "\<exists>mid fin. main_loop b_selected [key_event (ord CHR ''d'')] = Waiting mid
     \<and> main_loop b_selected [key_event (ord CHR ''d''), key_event (ord CHR ''d'')] = Waiting fin
     \<and> conn fin = abc_db \<and> conn mid \<noteq> abc_db"
proof -
  have pk: "distinct (map idea_id (rows abc_db))"
    and flags: "\<forall>x \<in> set (rows abc_db). archived x = 0 \<or> archived x = 1"
    and ne: "rows abc_db \<noteq> []"
    by (simp_all add: abc_db_def mk_idea_def)
  have h: "conn b_selected = abc_db \<and> moving_idea_index b_selected = None
      \<and> 0 \<le> scroll_offset b_selected
      \<and> key (key_event (ord CHR ''d'')) = ord CHR ''d''
      \<and> 1 \<le> (max_y (key_event (ord CHR ''d'')) - 2) div 2
      \<and> key (key_event (ord CHR ''d'')) = ord CHR ''d''
      \<and> 1 \<le> (max_y (key_event (ord CHR ''d'')) - 2) div 2"
    by (simp add: b_selected_def init_ui_def key_event_def)
  from archived_toggle_twice [OF pk flags] h ne show ?thesis
    by blast
qed

end
